theory Spec2Isabelle
  imports Main
begin

section \<open>Memory, pointers and element types\<close>

text \<open>
  The source file \<^verbatim>\<open>vector.h\<close> defines two class templates: \<^verbatim>\<open>RawMemory<T>\<close>, an owner of
  raw storage for \<^verbatim>\<open>capacity_\<close> elements, and \<^verbatim>\<open>Vector<T>\<close>, which keeps the first
  \<^verbatim>\<open>size_\<close> slots of one \<^verbatim>\<open>RawMemory<T>\<close> alive.  The members \<^verbatim>\<open>buffer_\<close>,
  \<^verbatim>\<open>capacity_\<close>, \<^verbatim>\<open>data_\<close> and \<^verbatim>\<open>size_\<close> are the fields \<open>m_buffer\<close>, \<open>m_capacity\<close>,
  \<open>m_data\<close> and \<open>m_size\<close> here (a name cannot end with an underscore).

  A slot of storage is either raw memory or holds a live object with a value.  A block
  returned by \<^verbatim>\<open>operator new\<close> is a list of slots; the heap is the list of all blocks ever
  allocated, a released block being \<open>None\<close>.  A \<^verbatim>\<open>T*\<close> is null or a block address with
  an element index.  Element counts (\<^verbatim>\<open>size_t\<close>) are natural numbers; the number of bytes
  \<^verbatim>\<open>n * sizeof(T)\<close> that \<^verbatim>\<open>Allocate\<close> asks for is computed in \<^verbatim>\<open>size_t\<close>, modulo \<open>2 ^ 64\<close>.
\<close>

datatype 'a slot = Raw | Obj 'a

datatype ptr = Null | Ptr nat nat

text \<open>
  The operations of the element type that can raise, and the ways a call can end other
  than by returning: an exception of an element operation, \<^verbatim>\<open>std::bad_alloc\<close>, a failed
  \<^verbatim>\<open>assert\<close>, undefined behaviour, and a body that is ill-formed for the element type.
\<close>

datatype elem_op = ArgsCtor | ValueInit | CopyCtor | MoveCtor | CopyAssign | MoveAssign

datatype error = Thrown elem_op | BadAlloc | AssertFailed | Undefined | IllFormed

record RawMemory =
  m_buffer :: ptr
  m_capacity :: nat

record Vector =
  m_data :: RawMemory
  m_size :: nat

text \<open>
  The machine state: the heap, the \<^verbatim>\<open>Vector\<close> objects (a member function receives the
  index of \<^verbatim>\<open>this\<close>), and two schedules that say which of the coming element operations
  and allocations raise (an exhausted schedule: none does).
\<close>

record 'a machine =
  heap :: "'a slot list option list"
  vecs :: "Vector list"
  elem_faults :: "bool list"
  alloc_faults :: "bool list"

text \<open>
  What the source asks of the element type \<^verbatim>\<open>T\<close>: \<^verbatim>\<open>sizeof(T)\<close>, the type traits, the
  value a moved-from object is left with, and the value of \<^verbatim>\<open>T()\<close>.
\<close>

record 'a elem_type =
  sizeof_T :: nat
  nothrow_move_constructible :: bool
  copy_constructible :: bool
  nothrow_move_assignable :: bool
  moved_from :: "'a \<Rightarrow> 'a"
  value_init :: 'a

type_synonym ('r, 'a) run = "'a machine \<Rightarrow> (error \<times> 'a machine) + ('r \<times> 'a machine)"

definition return :: "'r \<Rightarrow> ('r, 'a) run" where
  "return r s = Inr (r, s)"

definition raise :: "error \<Rightarrow> ('r, 'a) run" where
  "raise e s = Inl (e, s)"

definition bind :: "('r, 'a) run \<Rightarrow> ('r \<Rightarrow> ('q, 'a) run) \<Rightarrow> ('q, 'a) run" where
  "bind f g s = (case f s of Inl x \<Rightarrow> Inl x | Inr (r, s') \<Rightarrow> g r s')"

fun is_exception :: "error \<Rightarrow> bool" where
  "is_exception (Thrown _) = True"
| "is_exception BadAlloc = True"
| "is_exception _ = False"

text \<open>\<^verbatim>\<open>try { body } catch (...) { handler }\<close>: only C++ exceptions are caught.\<close>

definition try_catch :: "('r, 'a) run \<Rightarrow> (error \<Rightarrow> ('r, 'a) run) \<Rightarrow> ('r, 'a) run" where
  "try_catch body handler s =
     (case body s of
        Inl (e, s') \<Rightarrow> if is_exception e then handler e s' else Inl (e, s')
      | Inr x \<Rightarrow> Inr x)"

text \<open>Stack unwinding: the destructors of the locals run, the exception goes on.\<close>

definition unwind :: "('r, 'a) run \<Rightarrow> (unit, 'a) run \<Rightarrow> ('r, 'a) run" where
  "unwind body cleanup = try_catch body (\<lambda>e. bind cleanup (\<lambda>_. raise e))"

subsection \<open>Pointer arithmetic\<close>

fun ptr_add :: "ptr \<Rightarrow> nat \<Rightarrow> (ptr, 'a) run" where
  "ptr_add Null n = (if n = 0 then return Null else raise Undefined)"
| "ptr_add (Ptr a i) n = return (Ptr a (i + n))"

fun ptr_sub :: "ptr \<Rightarrow> nat \<Rightarrow> (ptr, 'a) run" where
  "ptr_sub Null n = (if n = 0 then return Null else raise Undefined)"
| "ptr_sub (Ptr a i) n = (if n \<le> i then return (Ptr a (i - n)) else raise Undefined)"

text \<open>\<^verbatim>\<open>p + d\<close> for a signed \<^verbatim>\<open>d\<close>.\<close>

fun ptr_add_int :: "ptr \<Rightarrow> int \<Rightarrow> (ptr, 'a) run" where
  "ptr_add_int Null d = (if d = 0 then return Null else raise Undefined)"
| "ptr_add_int (Ptr a i) d = (if 0 \<le> int i + d then return (Ptr a (nat (int i + d))) else raise Undefined)"

text \<open>
  \<^verbatim>\<open>p - q\<close>: defined for two pointers into one block and for two null pointers.
\<close>

fun ptr_diff :: "ptr \<Rightarrow> ptr \<Rightarrow> (int, 'a) run" where
  "ptr_diff Null Null = return 0"
| "ptr_diff (Ptr a i) (Ptr b j) = (if a = b then return (int i - int j) else raise Undefined)"
| "ptr_diff _ _ = raise Undefined"

text \<open>Conversion of a \<^verbatim>\<open>ptrdiff_t\<close> to \<^verbatim>\<open>size_t\<close> (64 bits).\<close>

definition size_t :: "int \<Rightarrow> nat" where
  "size_t d = nat (d mod 2 ^ 64)"

text \<open>
  The number of rounds of \<^verbatim>\<open>for (iter = first; iter != last; ++iter)\<close>: \<open>last\<close> is reached
  when it lies at or after \<open>first\<close> in the same block; otherwise the loop leaves the block.
\<close>

fun loop_count :: "ptr \<Rightarrow> ptr \<Rightarrow> (nat, 'a) run" where
  "loop_count Null Null = return 0"
| "loop_count (Ptr a i) (Ptr b j) = (if a = b \<and> i \<le> j then return (j - i) else raise Undefined)"
| "loop_count _ _ = raise Undefined"

subsection \<open>Slots\<close>

definition block_at :: "'a slot list option list \<Rightarrow> nat \<Rightarrow> 'a slot list option" where
  "block_at h a = (if a < length h then h ! a else None)"

text \<open>Reading the value of a live object.\<close>

fun load :: "ptr \<Rightarrow> ('a, 'a) run" where
  "load Null s = Inl (Undefined, s)"
| "load (Ptr a i) s =
     (case block_at (heap s) a of
        None \<Rightarrow> Inl (Undefined, s)
      | Some blk \<Rightarrow>
          if i < length blk then (case blk ! i of Raw \<Rightarrow> Inl (Undefined, s) | Obj v \<Rightarrow> Inr (v, s))
          else Inl (Undefined, s))"

text \<open>Writing a slot of an allocated block.\<close>

fun store :: "ptr \<Rightarrow> 'a slot \<Rightarrow> (unit, 'a) run" where
  "store Null x s = Inl (Undefined, s)"
| "store (Ptr a i) x s =
     (case block_at (heap s) a of
        None \<Rightarrow> Inl (Undefined, s)
      | Some blk \<Rightarrow>
          if i < length blk then Inr ((), s\<lparr>heap := (heap s)[a := Some (blk[i := x])]\<rparr>)
          else Inl (Undefined, s))"

text \<open>The next entry of the schedule of element operations.\<close>

definition next_fault :: "(bool, 'a) run" where
  "next_fault s =
     (case elem_faults s of [] \<Rightarrow> Inr (False, s) | f # fs \<Rightarrow> Inr (f, s\<lparr>elem_faults := fs\<rparr>))"

definition may_throw :: "elem_op \<Rightarrow> (unit, 'a) run" where
  "may_throw op = bind next_fault (\<lambda>f. if f then raise (Thrown op) else return ())"

subsection \<open>Operations of the element type\<close>

text \<open>\<^verbatim>\<open>std::destroy_at(p)\<close>: the object's lifetime ends, its slot is raw again.\<close>

definition destroy_at :: "ptr \<Rightarrow> (unit, 'a) run" where
  "destroy_at p = bind (load p) (\<lambda>_. store p Raw)"

text \<open>\<^verbatim>\<open>new (dst) T(src)\<close> with the copy constructor.\<close>

definition copy_construct :: "'a elem_type \<Rightarrow> ptr \<Rightarrow> ptr \<Rightarrow> (unit, 'a) run" where
  "copy_construct T src dst =
     (if copy_constructible T then
        bind (load src) (\<lambda>v. bind (may_throw CopyCtor) (\<lambda>_. store dst (Obj v)))
      else raise IllFormed)"

text \<open>\<^verbatim>\<open>new (dst) T(std::move(src))\<close> with the move constructor.\<close>

definition move_construct :: "'a elem_type \<Rightarrow> ptr \<Rightarrow> ptr \<Rightarrow> (unit, 'a) run" where
  "move_construct T src dst =
     bind (load src) (\<lambda>v.
     bind (if nothrow_move_constructible T then return () else may_throw MoveCtor) (\<lambda>_.
     bind (store dst (Obj v)) (\<lambda>_. store src (Obj (moved_from T v)))))"

text \<open>\<^verbatim>\<open>new (dst) T()\<close>.\<close>

definition value_construct :: "'a elem_type \<Rightarrow> ptr \<Rightarrow> (unit, 'a) run" where
  "value_construct T dst = bind (may_throw ValueInit) (\<lambda>_. store dst (Obj (value_init T)))"

text \<open>\<^verbatim>\<open>*dst = *src\<close>: both objects are alive.\<close>

definition copy_assign :: "'a elem_type \<Rightarrow> ptr \<Rightarrow> ptr \<Rightarrow> (unit, 'a) run" where
  "copy_assign T src dst =
     bind (load src) (\<lambda>v. bind (load dst) (\<lambda>_.
     bind (may_throw CopyAssign) (\<lambda>_. store dst (Obj v))))"

text \<open>\<^verbatim>\<open>*dst = std::move(*src)\<close>.\<close>

definition move_assign :: "'a elem_type \<Rightarrow> ptr \<Rightarrow> ptr \<Rightarrow> (unit, 'a) run" where
  "move_assign T src dst =
     bind (load src) (\<lambda>v. bind (load dst) (\<lambda>_.
     bind (if nothrow_move_assignable T then return () else may_throw MoveAssign) (\<lambda>_.
     bind (store dst (Obj v)) (\<lambda>_. store src (Obj (moved_from T v))))))"

text \<open>
  The arguments \<^verbatim>\<open>Args&&... args\<close> of \<^verbatim>\<open>Emplace\<close> and \<^verbatim>\<open>EmplaceBack\<close>: one reference to a
  \<^verbatim>\<open>T\<close> object, with its value category, or arguments of another constructor, which
  builds the given value.
\<close>

datatype 'a args = LRef ptr | CLRef ptr | RRef ptr | CRRef ptr | Args 'a

text \<open>\<^verbatim>\<open>std::move\<close>: an rvalue reference of the same constness.\<close>

fun std_move :: "'a args \<Rightarrow> 'a args" where
  "std_move (LRef p) = RRef p"
| "std_move (CLRef p) = CRRef p"
| "std_move (RRef p) = RRef p"
| "std_move (CRRef p) = CRRef p"
| "std_move (Args x) = Args x"

text \<open>
  \<^verbatim>\<open>new (dst) T(std::forward<Args>(args)...)\<close>: overload resolution takes the move
  constructor for a \<^verbatim>\<open>T&&\<close> and the copy constructor for every other reference to \<^verbatim>\<open>T\<close>
  (a \<^verbatim>\<open>const T&&\<close> binds to \<^verbatim>\<open>const T&\<close> only).
\<close>

fun construct :: "'a elem_type \<Rightarrow> ptr \<Rightarrow> 'a args \<Rightarrow> (unit, 'a) run" where
  "construct T dst (RRef src) = move_construct T src dst"
| "construct T dst (LRef src) = copy_construct T src dst"
| "construct T dst (CLRef src) = copy_construct T src dst"
| "construct T dst (CRRef src) = copy_construct T src dst"
| "construct T dst (Args x) = bind (may_throw ArgsCtor) (\<lambda>_. store dst (Obj x))"

subsection \<open>Algorithms of the standard library over raw storage\<close>

text \<open>\<^verbatim>\<open>std::destroy_n(first, n)\<close>, from index \<open>k\<close> on.\<close>

fun destroy_from :: "ptr \<Rightarrow> nat \<Rightarrow> nat \<Rightarrow> (unit, 'a) run" where
  "destroy_from first k 0 = return ()"
| "destroy_from first k (Suc n) =
     bind (ptr_add first k) (\<lambda>p. bind (destroy_at p) (\<lambda>_. destroy_from first (Suc k) n))"

definition destroy_n :: "ptr \<Rightarrow> nat \<Rightarrow> (unit, 'a) run" where
  "destroy_n first n = destroy_from first 0 n"

text \<open>
  \<^verbatim>\<open>std::uninitialized_copy_n(first, n, result)\<close>: when a construction raises, the objects
  built so far are destroyed and the exception goes on.
\<close>

fun uninitialized_copy_from :: "'a elem_type \<Rightarrow> ptr \<Rightarrow> ptr \<Rightarrow> nat \<Rightarrow> nat \<Rightarrow> (unit, 'a) run" where
  "uninitialized_copy_from T first result k 0 = return ()"
| "uninitialized_copy_from T first result k (Suc n) =
     bind (ptr_add first k) (\<lambda>src. bind (ptr_add result k) (\<lambda>cur.
     bind (unwind (copy_construct T src cur) (destroy_n result k)) (\<lambda>_.
       uninitialized_copy_from T first result (Suc k) n)))"

definition uninitialized_copy_n :: "'a elem_type \<Rightarrow> ptr \<Rightarrow> nat \<Rightarrow> ptr \<Rightarrow> (unit, 'a) run" where
  "uninitialized_copy_n T first n result = uninitialized_copy_from T first result 0 n"

text \<open>\<^verbatim>\<open>std::uninitialized_move_n(first, n, result)\<close>, with the same roll-back.\<close>

fun uninitialized_move_from :: "'a elem_type \<Rightarrow> ptr \<Rightarrow> ptr \<Rightarrow> nat \<Rightarrow> nat \<Rightarrow> (unit, 'a) run" where
  "uninitialized_move_from T first result k 0 = return ()"
| "uninitialized_move_from T first result k (Suc n) =
     bind (ptr_add first k) (\<lambda>src. bind (ptr_add result k) (\<lambda>cur.
     bind (unwind (move_construct T src cur) (destroy_n result k)) (\<lambda>_.
       uninitialized_move_from T first result (Suc k) n)))"

definition uninitialized_move_n :: "'a elem_type \<Rightarrow> ptr \<Rightarrow> nat \<Rightarrow> ptr \<Rightarrow> (unit, 'a) run" where
  "uninitialized_move_n T first n result = uninitialized_move_from T first result 0 n"

text \<open>\<^verbatim>\<open>std::uninitialized_value_construct_n(first, n)\<close>, with the same roll-back.\<close>

fun uninitialized_value_construct_from :: "'a elem_type \<Rightarrow> ptr \<Rightarrow> nat \<Rightarrow> nat \<Rightarrow> (unit, 'a) run" where
  "uninitialized_value_construct_from T first k 0 = return ()"
| "uninitialized_value_construct_from T first k (Suc n) =
     bind (ptr_add first k) (\<lambda>cur.
     bind (unwind (value_construct T cur) (destroy_n first k)) (\<lambda>_.
       uninitialized_value_construct_from T first (Suc k) n))"

definition uninitialized_value_construct_n :: "'a elem_type \<Rightarrow> ptr \<Rightarrow> nat \<Rightarrow> (unit, 'a) run" where
  "uninitialized_value_construct_n T first n = uninitialized_value_construct_from T first 0 n"

text \<open>\<^verbatim>\<open>std::copy_n(first, n, result)\<close>: element-wise copy assignment.\<close>

fun copy_from :: "'a elem_type \<Rightarrow> ptr \<Rightarrow> ptr \<Rightarrow> nat \<Rightarrow> nat \<Rightarrow> (unit, 'a) run" where
  "copy_from T first result k 0 = return ()"
| "copy_from T first result k (Suc n) =
     bind (ptr_add first k) (\<lambda>src. bind (ptr_add result k) (\<lambda>dst.
     bind (copy_assign T src dst) (\<lambda>_. copy_from T first result (Suc k) n)))"

definition copy_n :: "'a elem_type \<Rightarrow> ptr \<Rightarrow> nat \<Rightarrow> ptr \<Rightarrow> (unit, 'a) run" where
  "copy_n T first n result = copy_from T first result 0 n"

text \<open>
  \<^verbatim>\<open>std::move_backward(first, last, d_last)\<close>, for \<open>n = last - first\<close> rounds of
  \<^verbatim>\<open>*(--d_last) = std::move(*(--last))\<close>.
\<close>

fun move_backward_rounds :: "'a elem_type \<Rightarrow> ptr \<Rightarrow> ptr \<Rightarrow> nat \<Rightarrow> (unit, 'a) run" where
  "move_backward_rounds T lst d_last 0 = return ()"
| "move_backward_rounds T lst d_last (Suc n) =
     bind (ptr_sub lst 1) (\<lambda>l. bind (ptr_sub d_last 1) (\<lambda>d.
     bind (move_assign T l d) (\<lambda>_. move_backward_rounds T l d n)))"

definition move_backward :: "'a elem_type \<Rightarrow> ptr \<Rightarrow> ptr \<Rightarrow> ptr \<Rightarrow> (unit, 'a) run" where
  "move_backward T first lst d_last =
     bind (loop_count first lst) (\<lambda>n. move_backward_rounds T lst d_last n)"

section \<open>RawMemory\<close>

text \<open>
  \<^verbatim>\<open>operator new(bytes)\<close>, its result used as a \<^verbatim>\<open>T*\<close>: \<^verbatim>\<open>std::bad_alloc\<close> when the schedule
  says so, otherwise a new block of raw storage with room for \<open>bytes div sizeof(T)\<close>
  elements.  A new block never has the address of an earlier one.
\<close>

definition operator_new :: "'a elem_type \<Rightarrow> nat \<Rightarrow> (ptr, 'a) run" where
  "operator_new T bytes s =
     (case alloc_faults s of
        [] \<Rightarrow> Inr (Ptr (length (heap s)) 0,
                  s\<lparr>heap := heap s @ [Some (replicate (bytes div sizeof_T T) Raw)]\<rparr>)
      | f # fs \<Rightarrow>
          if f then Inl (BadAlloc, s\<lparr>alloc_faults := fs\<rparr>)
          else Inr (Ptr (length (heap s)) 0,
                    s\<lparr>heap := heap s @ [Some (replicate (bytes div sizeof_T T) Raw)],
                      alloc_faults := fs\<rparr>))"

text \<open>
  \<^verbatim>\<open>Allocate(n)\<close>: \<^verbatim>\<open>operator new(n * sizeof(T))\<close>, or null for \<open>n = 0\<close>.  The product is
  computed in \<^verbatim>\<open>size_t\<close> and wraps around.
\<close>

definition Allocate :: "'a elem_type \<Rightarrow> nat \<Rightarrow> (ptr, 'a) run" where
  "Allocate T n =
     (if n \<noteq> 0 then operator_new T (size_t (int n * int (sizeof_T T))) else return Null)"

text \<open>\<^verbatim>\<open>Deallocate(buf)\<close>: \<^verbatim>\<open>operator delete\<close>, defined for null and for the start of a live block.\<close>

fun Deallocate :: "ptr \<Rightarrow> (unit, 'a) run" where
  "Deallocate Null s = Inr ((), s)"
| "Deallocate (Ptr a i) s =
     (if i = 0 \<and> block_at (heap s) a \<noteq> None then Inr ((), s\<lparr>heap := (heap s)[a := None]\<rparr>)
      else Inl (Undefined, s))"

text \<open>\<^verbatim>\<open>RawMemory() = default\<close>.\<close>

definition RawMemory_default :: RawMemory where
  "RawMemory_default = \<lparr>m_buffer = Null, m_capacity = 0\<rparr>"

text \<open>\<^verbatim>\<open>explicit RawMemory(size_t capacity)\<close>.\<close>

definition RawMemory_ctor :: "'a elem_type \<Rightarrow> nat \<Rightarrow> (RawMemory, 'a) run" where
  "RawMemory_ctor T capacity =
     bind (Allocate T capacity) (\<lambda>p. return \<lparr>m_buffer = p, m_capacity = capacity\<rparr>)"

text \<open>\<^verbatim>\<open>~RawMemory()\<close>.\<close>

definition RawMemory_dtor :: "RawMemory \<Rightarrow> (unit, 'a) run" where
  "RawMemory_dtor rm = Deallocate (m_buffer rm)"

text \<open>
  \<^verbatim>\<open>RawMemory(RawMemory&& other)\<close>: the new object and \<open>other\<close> after the call.
  \<^verbatim>\<open>std::move(other.GetAddress())\<close> is applied to a pointer value, which it copies;
  nothing is assigned to a member of \<open>other\<close>.
\<close>

definition RawMemory_move_ctor :: "RawMemory \<Rightarrow> RawMemory \<times> RawMemory" where
  "RawMemory_move_ctor other = (\<lparr>m_buffer = m_buffer other, m_capacity = m_capacity other\<rparr>, other)"

text \<open>\<^verbatim>\<open>RawMemory& operator=(RawMemory&& rhs)\<close>: \<^verbatim>\<open>*this\<close> and \<open>rhs\<close> after the call.\<close>

definition RawMemory_move_assign :: "RawMemory \<Rightarrow> RawMemory \<Rightarrow> RawMemory \<times> RawMemory" where
  "RawMemory_move_assign this rhs =
     (this\<lparr>m_buffer := m_buffer rhs, m_capacity := m_capacity rhs\<rparr>, rhs)"

text \<open>\<^verbatim>\<open>T* operator+(size_t offset)\<close>.\<close>

definition RawMemory_plus :: "RawMemory \<Rightarrow> nat \<Rightarrow> (ptr, 'a) run" where
  "RawMemory_plus rm offset =
     (if offset \<le> m_capacity rm then ptr_add (m_buffer rm) offset else raise AssertFailed)"

text \<open>The address of \<^verbatim>\<open>operator[](index)\<close>'s result.\<close>

definition RawMemory_index :: "RawMemory \<Rightarrow> nat \<Rightarrow> (ptr, 'a) run" where
  "RawMemory_index rm index =
     (if index < m_capacity rm then ptr_add (m_buffer rm) index else raise AssertFailed)"

text \<open>\<^verbatim>\<open>Swap(other)\<close>: \<^verbatim>\<open>*this\<close> and \<open>other\<close> after the call.\<close>

definition RawMemory_Swap :: "RawMemory \<Rightarrow> RawMemory \<Rightarrow> RawMemory \<times> RawMemory" where
  "RawMemory_Swap this other =
     (this\<lparr>m_buffer := m_buffer other, m_capacity := m_capacity other\<rparr>,
      other\<lparr>m_buffer := m_buffer this, m_capacity := m_capacity this\<rparr>)"

section \<open>Vector\<close>

definition get_vec :: "nat \<Rightarrow> (Vector, 'a) run" where
  "get_vec this s = (if this < length (vecs s) then Inr (vecs s ! this, s) else Inl (Undefined, s))"

definition put_vec :: "nat \<Rightarrow> Vector \<Rightarrow> (unit, 'a) run" where
  "put_vec this v s = Inr ((), s\<lparr>vecs := (vecs s)[this := v]\<rparr>)"

text \<open>Storage for a local \<^verbatim>\<open>Vector\<close> object, and its release at the end of the scope.\<close>

definition push_frame :: "(nat, 'a) run" where
  "push_frame s =
     Inr (length (vecs s), s\<lparr>vecs := vecs s @ [\<lparr>m_data = RawMemory_default, m_size = 0\<rparr>]\<rparr>)"

definition pop_frame :: "(unit, 'a) run" where
  "pop_frame s = Inr ((), s\<lparr>vecs := butlast (vecs s)\<rparr>)"

text \<open>Storage for a local \<^verbatim>\<open>T\<close> object: one raw slot outside every allocated block.\<close>

definition local_new :: "(ptr, 'a) run" where
  "local_new s = Inr (Ptr (length (heap s)) 0, s\<lparr>heap := heap s @ [Some [Raw]]\<rparr>)"

fun local_delete :: "ptr \<Rightarrow> (unit, 'a) run" where
  "local_delete Null s = Inl (Undefined, s)"
| "local_delete (Ptr a i) s = Inr ((), s\<lparr>heap := (heap s)[a := None]\<rparr>)"

definition Size :: "nat \<Rightarrow> (nat, 'a) run" where
  "Size this = bind (get_vec this) (\<lambda>v. return (m_size v))"

definition Capacity :: "nat \<Rightarrow> (nat, 'a) run" where
  "Capacity this = bind (get_vec this) (\<lambda>v. return (m_capacity (m_data v)))"

text \<open>\<^verbatim>\<open>begin()\<close>, \<^verbatim>\<open>end()\<close> and their const versions.\<close>

definition Vector_begin :: "nat \<Rightarrow> (ptr, 'a) run" where
  "Vector_begin this =
     bind (get_vec this) (\<lambda>v. if m_size v > 0 then RawMemory_index (m_data v) 0 else return Null)"

definition Vector_end :: "nat \<Rightarrow> (ptr, 'a) run" where
  "Vector_end this =
     bind (Vector_begin this) (\<lambda>b. bind (get_vec this) (\<lambda>v. ptr_add b (m_size v)))"

definition Vector_cbegin :: "nat \<Rightarrow> (ptr, 'a) run" where
  "Vector_cbegin this = Vector_begin this"

definition Vector_cend :: "nat \<Rightarrow> (ptr, 'a) run" where
  "Vector_cend this = Vector_end this"

text \<open>\<^verbatim>\<open>~Vector()\<close>: the body, then the destructor of the member \<^verbatim>\<open>data_\<close>.\<close>

definition Vector_dtor :: "nat \<Rightarrow> (unit, 'a) run" where
  "Vector_dtor this =
     bind (get_vec this) (\<lambda>v.
     bind (destroy_n (m_buffer (m_data v)) (m_size v)) (\<lambda>_. RawMemory_dtor (m_data v)))"

text \<open>
  \<^verbatim>\<open>Vector(const Vector& other)\<close>, constructed in the storage \<open>this\<close>.  When the body
  raises, the member \<^verbatim>\<open>data_\<close>, already constructed, is destroyed.
\<close>

definition Vector_copy_ctor :: "'a elem_type \<Rightarrow> nat \<Rightarrow> nat \<Rightarrow> (unit, 'a) run" where
  "Vector_copy_ctor T this other =
     bind (get_vec other) (\<lambda>ov.
     bind (RawMemory_ctor T (m_size ov)) (\<lambda>d.
     bind (put_vec this \<lparr>m_data = d, m_size = m_size ov\<rparr>) (\<lambda>_.
       unwind (uninitialized_copy_n T (m_buffer (m_data ov)) (m_size ov) (m_buffer d))
              (RawMemory_dtor d))))"

text \<open>\<^verbatim>\<open>explicit Vector(size_t size)\<close>.\<close>

definition Vector_sized_ctor :: "'a elem_type \<Rightarrow> nat \<Rightarrow> nat \<Rightarrow> (unit, 'a) run" where
  "Vector_sized_ctor T this sz =
     bind (RawMemory_ctor T sz) (\<lambda>d.
     bind (put_vec this \<lparr>m_data = d, m_size = sz\<rparr>) (\<lambda>_.
       unwind (uninitialized_value_construct_n T (m_buffer d) sz) (RawMemory_dtor d)))"

text \<open>\<^verbatim>\<open>Swap(Vector& other)\<close>.\<close>

definition Vector_Swap :: "nat \<Rightarrow> nat \<Rightarrow> (unit, 'a) run" where
  "Vector_Swap this other =
     bind (get_vec this) (\<lambda>v. bind (get_vec other) (\<lambda>w.
     bind (put_vec other (w\<lparr>m_data := fst (RawMemory_Swap (m_data w) (m_data v))\<rparr>)) (\<lambda>_.
     bind (get_vec this) (\<lambda>v1. bind (put_vec this (v1\<lparr>m_data := snd (RawMemory_Swap (m_data w) (m_data v))\<rparr>)) (\<lambda>_.
     bind (get_vec other) (\<lambda>w2. bind (get_vec this) (\<lambda>v2.
     bind (put_vec other (w2\<lparr>m_size := m_size v2\<rparr>)) (\<lambda>_.
     bind (get_vec this) (\<lambda>v3. put_vec this (v3\<lparr>m_size := m_size w2\<rparr>))))))))))"

text \<open>\<^verbatim>\<open>Vector& operator=(Vector&& rhs)\<close>.\<close>

definition Vector_move_assign :: "nat \<Rightarrow> nat \<Rightarrow> (unit, 'a) run" where
  "Vector_move_assign this rhs =
     (if this \<noteq> rhs then
        bind (get_vec this) (\<lambda>v. bind (get_vec rhs) (\<lambda>r.
        bind (put_vec this (v\<lparr>m_data := fst (RawMemory_Swap (m_data v) (m_data r)), m_size := m_size r\<rparr>)) (\<lambda>_.
             put_vec rhs (r\<lparr>m_data := snd (RawMemory_Swap (m_data v) (m_data r)), m_size := m_size v\<rparr>))))
      else return ())"

text \<open>\<^verbatim>\<open>Vector(Vector&& other)\<close>: the members take their default values, then \<^verbatim>\<open>*this = std::move(other)\<close>.\<close>

definition Vector_move_ctor :: "nat \<Rightarrow> nat \<Rightarrow> (unit, 'a) run" where
  "Vector_move_ctor this other =
     bind (put_vec this \<lparr>m_data = RawMemory_default, m_size = 0\<rparr>) (\<lambda>_. Vector_move_assign this other)"

text \<open>
  \<^verbatim>\<open>MoveOrCopy(RawMemory<T>& new_data)\<close>; the result is \<open>new_data\<close> after the call.
\<close>

definition MoveOrCopy :: "'a elem_type \<Rightarrow> nat \<Rightarrow> RawMemory \<Rightarrow> (RawMemory, 'a) run" where
  "MoveOrCopy T this new_data =
     bind (get_vec this) (\<lambda>v.
     bind (if nothrow_move_constructible T \<or> \<not> copy_constructible T
           then uninitialized_move_n T (m_buffer (m_data v)) (m_size v) (m_buffer new_data)
           else uninitialized_copy_n T (m_buffer (m_data v)) (m_size v) (m_buffer new_data)) (\<lambda>_.
     bind (destroy_n (m_buffer (m_data v)) (m_size v)) (\<lambda>_.
     bind (put_vec this (v\<lparr>m_data := fst (RawMemory_Swap (m_data v) new_data)\<rparr>)) (\<lambda>_.
       return (snd (RawMemory_Swap (m_data v) new_data))))))"

text \<open>\<^verbatim>\<open>Reserve(size_t new_capacity)\<close>; the local \<open>new_data\<close> is destroyed on every way out.\<close>

definition Reserve :: "'a elem_type \<Rightarrow> nat \<Rightarrow> nat \<Rightarrow> (unit, 'a) run" where
  "Reserve T new_capacity this =
     bind (get_vec this) (\<lambda>v.
       if new_capacity \<le> m_capacity (m_data v) then return ()
       else
         bind (RawMemory_ctor T new_capacity) (\<lambda>new_data.
         bind (unwind (MoveOrCopy T this new_data) (RawMemory_dtor new_data)) (\<lambda>new_data'.
           RawMemory_dtor new_data')))"

text \<open>\<^verbatim>\<open>Resize(size_t new_size)\<close>.\<close>

definition Resize :: "'a elem_type \<Rightarrow> nat \<Rightarrow> nat \<Rightarrow> (unit, 'a) run" where
  "Resize T new_size this =
     bind (get_vec this) (\<lambda>v.
     bind (if new_size < m_size v then
             bind (ptr_add (m_buffer (m_data v)) new_size) (\<lambda>p. destroy_n p (m_size v - new_size))
           else
             bind (Reserve T new_size this) (\<lambda>_.
             bind (get_vec this) (\<lambda>v1.
             bind (ptr_add (m_buffer (m_data v1)) (m_size v1)) (\<lambda>p.
               uninitialized_value_construct_n T p (new_size - m_size v1))))) (\<lambda>_.
     bind (get_vec this) (\<lambda>v2. put_vec this (v2\<lparr>m_size := new_size\<rparr>))))"





text \<open>
  The try block of \<^verbatim>\<open>Emplace\<close> on exhausted capacity: the elements before \<open>pos\<close> and the
  elements from \<open>pos\<close> on go to the new block.  The branch that moves puts the second part
  at \<^verbatim>\<open>new_data.GetAddress() + offset + 1\<close>, the branch that copies at
  \<^verbatim>\<open>new_data.GetAddress() + offset\<close>.
\<close>

definition Emplace_relocate :: "'a elem_type \<Rightarrow> ptr \<Rightarrow> nat \<Rightarrow> nat \<Rightarrow> RawMemory \<Rightarrow> (unit, 'a) run" where
  "Emplace_relocate T pos offset this new_data =
     bind (get_vec this) (\<lambda>v.
       if nothrow_move_constructible T \<or> \<not> copy_constructible T then
         bind (uninitialized_move_n T (m_buffer (m_data v)) offset (m_buffer new_data)) (\<lambda>_.
         bind (ptr_add (m_buffer (m_data v)) offset) (\<lambda>src.
         bind (Vector_cend this) (\<lambda>ce.
         bind (ptr_diff ce pos) (\<lambda>d.
         bind (ptr_add (m_buffer new_data) offset) (\<lambda>q.
         bind (ptr_add q 1) (\<lambda>dst.
           uninitialized_move_n T src (nat d) dst))))))
       else
         bind (uninitialized_copy_n T (m_buffer (m_data v)) offset (m_buffer new_data)) (\<lambda>_.
         bind (ptr_add (m_buffer (m_data v)) offset) (\<lambda>src.
         bind (Vector_cend this) (\<lambda>ce.
         bind (ptr_diff ce pos) (\<lambda>d.
         bind (ptr_add (m_buffer new_data) offset) (\<lambda>dst.
           uninitialized_copy_n T src (nat d) dst))))))"

text \<open>
  \<^verbatim>\<open>Emplace(const_iterator pos, Args&&... args)\<close>.  The handler of the try block destroys
  the new element, calls \<^verbatim>\<open>new_data.~RawMemory()\<close> and ends without \<^verbatim>\<open>throw\<close>: the
  statements after the try block run.  The destructor leaves the members of \<open>new_data\<close>
  as they are, and it runs again at the end of the block.
\<close>

definition Emplace :: "'a elem_type \<Rightarrow> ptr \<Rightarrow> 'a args \<Rightarrow> nat \<Rightarrow> (ptr, 'a) run" where
  "Emplace T pos args this =
     bind (Vector_cbegin this) (\<lambda>cb.
     bind (ptr_diff pos cb) (\<lambda>d0.
     bind (get_vec this) (\<lambda>v.
     bind (if m_capacity (m_data v) \<le> m_size v then
             bind (RawMemory_ctor T
                     (if m_capacity (m_data v) = 0 then 1 else m_capacity (m_data v) * 2)) (\<lambda>new_data.
             bind (unwind
                     (bind (RawMemory_plus new_data (size_t d0)) (\<lambda>p.
                      bind (construct T p args) (\<lambda>_.
                      bind (try_catch (Emplace_relocate T pos (size_t d0) this new_data)
                              (\<lambda>e. bind (ptr_add (m_buffer new_data) (size_t d0)) (\<lambda>q.
                                   bind (destroy_at q) (\<lambda>_. RawMemory_dtor new_data)))) (\<lambda>_.
                      bind (destroy_n (m_buffer (m_data v)) (m_size v)) (\<lambda>_.
                      bind (put_vec this (v\<lparr>m_data := fst (RawMemory_Swap (m_data v) new_data)\<rparr>)) (\<lambda>_.
                        return (snd (RawMemory_Swap (m_data v) new_data))))))))
                     (RawMemory_dtor new_data)) (\<lambda>new_data'.
               RawMemory_dtor new_data'))
           else
             bind local_new (\<lambda>obj.
             bind (unwind (construct T obj args) (local_delete obj)) (\<lambda>_.
             bind (unwind
                     (bind (Vector_begin this) (\<lambda>b.
                      bind (ptr_add b (size_t d0)) (\<lambda>first.
                      bind (Vector_end this) (\<lambda>e.
                      bind (Vector_begin this) (\<lambda>b1.
                      bind (ptr_add b1 (m_size v)) (\<lambda>q.
                      bind (ptr_add q 1) (\<lambda>d_last.
                      bind (move_backward T first e d_last) (\<lambda>_.
                      bind (RawMemory_plus (m_data v) (size_t d0)) (\<lambda>p.
                        move_construct T obj p)))))))))
                     (bind (destroy_at obj) (\<lambda>_. local_delete obj))) (\<lambda>_.
             bind (destroy_at obj) (\<lambda>_. local_delete obj))))) (\<lambda>_.
     bind (get_vec this) (\<lambda>v1.
     bind (put_vec this (v1\<lparr>m_size := m_size v1 + 1\<rparr>)) (\<lambda>_.
     bind (get_vec this) (\<lambda>v2. RawMemory_index (m_data v2) (size_t d0))))))))"

text \<open>\<^verbatim>\<open>Insert(const_iterator pos, const T& value)\<close> and \<^verbatim>\<open>Insert(const_iterator pos, T&& value)\<close>.\<close>

definition Insert_const :: "'a elem_type \<Rightarrow> ptr \<Rightarrow> ptr \<Rightarrow> nat \<Rightarrow> (ptr, 'a) run" where
  "Insert_const T pos val this = Emplace T pos (CLRef val) this"

definition Insert_rvalue :: "'a elem_type \<Rightarrow> ptr \<Rightarrow> ptr \<Rightarrow> nat \<Rightarrow> (ptr, 'a) run" where
  "Insert_rvalue T pos val this = Emplace T pos (std_move (LRef val)) this"

text \<open>The loop of \<^verbatim>\<open>Erase\<close>: \<^verbatim>\<open>*iter = std::move(*std::next(iter, 1))\<close>, \<open>n\<close> rounds.\<close>

fun Erase_rounds :: "'a elem_type \<Rightarrow> ptr \<Rightarrow> nat \<Rightarrow> (unit, 'a) run" where
  "Erase_rounds T iter 0 = return ()"
| "Erase_rounds T iter (Suc n) =
     bind (ptr_add iter 1) (\<lambda>nxt.
     bind (move_assign T nxt iter) (\<lambda>_. Erase_rounds T nxt n))"

text \<open>
  \<^verbatim>\<open>Erase(const_iterator pos)\<close>.  The branch for an element type whose move assignment
  can raise initialises a \<^verbatim>\<open>T*\<close> from the integer \<^verbatim>\<open>pos - begin()\<close> and calls \<^verbatim>\<open>next\<close> on an
  element: it is ill-formed.  The result \<^verbatim>\<open>&data_[pos - begin()]\<close> is computed after
  \<^verbatim>\<open>size_ -= 1\<close>.
\<close>

definition Erase :: "'a elem_type \<Rightarrow> ptr \<Rightarrow> nat \<Rightarrow> (ptr, 'a) run" where
  "Erase T pos this =
     bind (if nothrow_move_assignable T then
             bind (Vector_begin this) (\<lambda>b.
             bind (Vector_cbegin this) (\<lambda>cb.
             bind (ptr_diff pos cb) (\<lambda>d.
             bind (ptr_add_int b d) (\<lambda>first.
             bind (Vector_end this) (\<lambda>e.
             bind (ptr_sub e 1) (\<lambda>lst.
             bind (loop_count first lst) (\<lambda>n.
             bind (Erase_rounds T first n) (\<lambda>_.
             bind (Vector_begin this) (\<lambda>b1.
             bind (get_vec this) (\<lambda>v.
             bind (ptr_add b1 (m_size v)) (\<lambda>p.
             bind (ptr_sub p 1) (\<lambda>q. destroy_at q))))))))))))
           else raise IllFormed) (\<lambda>_.
     bind (get_vec this) (\<lambda>v1.
     bind (put_vec this (v1\<lparr>m_size := m_size v1 - 1\<rparr>)) (\<lambda>_.
     bind (Vector_begin this) (\<lambda>b2.
     bind (ptr_diff pos b2) (\<lambda>d2.
     bind (get_vec this) (\<lambda>v2. RawMemory_index (m_data v2) (size_t d2)))))))"

text \<open>
  \<^verbatim>\<open>Vector& operator=(const Vector& rhs)\<close>.  The local \<open>tmp\<close> is destroyed at the end of its
  block.
\<close>

definition Vector_copy_assign :: "'a elem_type \<Rightarrow> nat \<Rightarrow> nat \<Rightarrow> (unit, 'a) run" where
  "Vector_copy_assign T this rhs =
     (if this \<noteq> rhs then
        bind (get_vec this) (\<lambda>v.
        bind (get_vec rhs) (\<lambda>r.
          if m_size r > m_capacity (m_data v) then
            bind push_frame (\<lambda>tmp.
            bind (unwind (Vector_copy_ctor T tmp rhs) pop_frame) (\<lambda>_.
            bind (Vector_Swap this tmp) (\<lambda>_.
            bind (Vector_dtor tmp) (\<lambda>_. pop_frame))))
          else
            bind (if m_size r \<le> m_size v then
                    bind (copy_n T (m_buffer (m_data r)) (m_size r) (m_buffer (m_data v))) (\<lambda>_.
                    bind (ptr_add (m_buffer (m_data v)) (m_size r)) (\<lambda>p.
                      destroy_n p (m_size v - m_size r)))
                  else
                    bind (copy_n T (m_buffer (m_data r)) (m_size v) (m_buffer (m_data v))) (\<lambda>_.
                    bind (ptr_add (m_buffer (m_data r)) (m_size v)) (\<lambda>src.
                    bind (ptr_add (m_buffer (m_data v)) (m_size v)) (\<lambda>dst.
                      uninitialized_copy_n T src (m_size r - m_size v) dst)))) (\<lambda>_.
            bind (get_vec this) (\<lambda>v1. put_vec this (v1\<lparr>m_size := m_size r\<rparr>)))))
      else return ())"

section \<open>What a caller observes\<close>

text \<open>The slots \<open>[0, size)\<close> of a vector, as iteration from \<^verbatim>\<open>begin()\<close> to \<^verbatim>\<open>end()\<close> finds them.\<close>

definition slots :: "'a machine \<Rightarrow> nat \<Rightarrow> 'a slot list" where
  "slots s this =
     (case m_buffer (m_data (vecs s ! this)) of
        Null \<Rightarrow> []
      | Ptr a i \<Rightarrow>
          (case block_at (heap s) a of
             None \<Rightarrow> []
           | Some blk \<Rightarrow> take (m_size (vecs s ! this)) (drop i blk)))"

text \<open>
  A vector in good order, with the element values \<open>xs\<close>: its size is their number and
  does not exceed the capacity; a null \<^verbatim>\<open>buffer_\<close> goes with capacity 0; any other
  \<^verbatim>\<open>buffer_\<close> is the start of a live block of \<^verbatim>\<open>capacity_\<close> slots, the first \<open>size\<close> of
  which hold objects with the values \<open>xs\<close>.
\<close>

definition vector_ok :: "'a machine \<Rightarrow> nat \<Rightarrow> 'a list \<Rightarrow> bool" where
  "vector_ok s this xs =
     (this < length (vecs s) \<and>
      m_size (vecs s ! this) = length xs \<and>
      length xs \<le> m_capacity (m_data (vecs s ! this)) \<and>
      (case m_buffer (m_data (vecs s ! this)) of
         Null \<Rightarrow> m_capacity (m_data (vecs s ! this)) = 0
       | Ptr a i \<Rightarrow>
           i = 0 \<and>
           (case block_at (heap s) a of
              None \<Rightarrow> False
            | Some blk \<Rightarrow>
                length blk = m_capacity (m_data (vecs s ! this)) \<and>
                take (length xs) blk = map Obj xs)))"

text \<open>The addresses of the blocks a \<^verbatim>\<open>RawMemory\<close> points into (none or one).\<close>

definition block_of :: "RawMemory \<Rightarrow> nat set" where
  "block_of rm = (case m_buffer rm of Null \<Rightarrow> {} | Ptr a i \<Rightarrow> {a})"

text \<open>
  A request for \<open>n\<close> elements does not wrap around: \<^verbatim>\<open>n * sizeof(T)\<close> is less than \<open>2 ^ 64\<close>
  (and \<^verbatim>\<open>sizeof(T)\<close> is not 0, as for every type).
\<close>

definition no_wrap :: "'a elem_type \<Rightarrow> nat \<Rightarrow> bool" where
  "no_wrap T n = (0 < sizeof_T T \<and> n * sizeof_T T < 2 ^ 64)"

text \<open>No operation of the element type and no allocation is scheduled to raise.\<close>

definition quiet :: "'a machine \<Rightarrow> bool" where
  "quiet s = (elem_faults s = [] \<and> alloc_faults s = [])"









definition alloc_fails :: "'a machine \<Rightarrow> bool" where
  "alloc_fails s = (case alloc_faults s of [] \<Rightarrow> False | f # fs \<Rightarrow> f)"

section \<open>Sequences of \<^verbatim>\<open>PushBack\<close> and \<^verbatim>\<open>PopBack\<close> calls\<close>

text \<open>
  A caller's operations on one vector.  For a \<^verbatim>\<open>PushBack\<close> the caller holds the value in
  an object of its own (a local), passes it as an lvalue or as an rvalue, and destroys
  the local afterwards.
\<close>

datatype 'a op = PushBackConst 'a | PushBackRvalue 'a | PopBackCall






section \<open>Auxiliary notions for the proofs\<close>

text \<open>A block with the slots from \<open>lo\<close> on replaced by \<open>ys\<close>.\<close>

definition overwrite :: "'b list \<Rightarrow> nat \<Rightarrow> 'b list \<Rightarrow> 'b list" where
  "overwrite blk lo ys = take lo blk @ ys @ drop (lo + length ys) blk"

text \<open>The number of slots of the block that \<^verbatim>\<open>Allocate(n)\<close> obtains.\<close>

definition alloc_slots :: "'a elem_type \<Rightarrow> nat \<Rightarrow> nat" where
  "alloc_slots T n = size_t (int n * int (sizeof_T T)) div sizeof_T T"

text \<open>
  A computation that raises errors of the set \<open>E\<close> only, and the set of all errors but
  the exception of a value-initialisation.
\<close>

definition raises_only :: "error set \<Rightarrow> ('r, 'a) run \<Rightarrow> bool" where
  "raises_only E f = (\<forall>s e s'. f s = Inl (e, s') \<longrightarrow> e \<in> E)"


text \<open>A slot after its object has been moved from.\<close>

definition mv :: "'a elem_type \<Rightarrow> 'a slot \<Rightarrow> 'a slot" where
  "mv T x = (case x of Raw \<Rightarrow> Raw | Obj v \<Rightarrow> Obj (moved_from T v))"

text \<open>
  Two element types over the integers for the concrete runs below: one whose move
  constructor can raise and that can be copied (growth relocates it by copying), and
  one whose operations never raise as far as the traits say (growth relocates it by
  moving).
\<close>

definition T_copying :: "int elem_type" where
  "T_copying = \<lparr>sizeof_T = 4, nothrow_move_constructible = False, copy_constructible = True,
     nothrow_move_assignable = True, moved_from = (\<lambda>x. x), value_init = 0\<rparr>"

definition T_trivial :: "int elem_type" where
  "T_trivial = \<lparr>sizeof_T = 4, nothrow_move_constructible = True, copy_constructible = True,
     nothrow_move_assignable = True, moved_from = (\<lambda>x. x), value_init = 0\<rparr>"

section \<open>Symbolic execution of the primitives\<close>

lemma length_overwrite [simp]:
  "lo + length ys \<le> length blk \<Longrightarrow> length (overwrite blk lo ys) = length blk"
  by (simp add: overwrite_def)

lemma overwrite_Nil [simp]: "overwrite blk lo [] = blk"
  by (simp add: overwrite_def)

lemma nth_overwrite:
  "lo + length ys \<le> length blk \<Longrightarrow> j < length blk \<Longrightarrow>
   overwrite blk lo ys ! j = (if lo \<le> j \<and> j < lo + length ys then ys ! (j - lo) else blk ! j)"
  by (auto simp: overwrite_def nth_append min_def add.commute)

lemma overwrite_update:
  "lo + length ys < length blk \<Longrightarrow> (overwrite blk lo ys)[lo + length ys := x] = overwrite blk lo (ys @ [x])"
  by (rule nth_equalityI) (auto simp: nth_overwrite nth_list_update nth_append)

lemma overwrite_Cons:
  "lo + length ys < length blk \<Longrightarrow> overwrite (blk[lo := x]) (Suc lo) ys = overwrite blk lo (x # ys)"
  by (rule nth_equalityI) (auto simp: nth_overwrite nth_list_update nth_Cons')

lemma take_overwrite_le [simp]:
  "m \<le> lo \<Longrightarrow> lo + length ys \<le> length blk \<Longrightarrow> take m (overwrite blk lo ys) = take m blk"
  by (rule nth_equalityI) (auto simp: nth_overwrite)

lemma take_overwrite_end:
  "lo + length ys \<le> length blk \<Longrightarrow> take (lo + length ys) (overwrite blk lo ys) = take lo blk @ ys"
  by (rule nth_equalityI) (auto simp: nth_overwrite nth_append)

lemma update_block_same: "block_at h a = Some blk \<Longrightarrow> h[a := Some blk] = h"
  by (auto simp: block_at_def list_update_same_conv split: if_splits)

lemma block_at_append [simp]:
  "block_at (h @ [x]) a = (if a = length h then x else block_at h a)"
  by (auto simp: block_at_def nth_append)

lemma block_at_update [simp]:
  "block_at (h[a := x]) c = (if c = a \<and> a < length h then x else block_at h c)"
  by (auto simp: block_at_def)

lemma block_at_Some_less: "block_at h a = Some blk \<Longrightarrow> a < length h"
  by (auto simp: block_at_def split: if_splits)

lemma bind_return [simp]: "bind (return r) g = g r"
  by (rule ext) (simp add: bind_def return_def)

lemma bind_raise [simp]: "bind (raise e) g = raise e"
  by (rule ext) (simp add: bind_def raise_def)

lemma bind_Inr: "f s = Inr (r, s') \<Longrightarrow> bind f g s = g r s'"
  by (simp add: bind_def)

lemma bind_Inl: "f s = Inl x \<Longrightarrow> bind f g s = Inl x"
  by (simp add: bind_def)


lemma store_exec:
  "block_at (heap s) a = Some blk \<Longrightarrow> i < length blk \<Longrightarrow>
   store (Ptr a i) x s = Inr ((), s\<lparr>heap := (heap s)[a := Some (blk[i := x])]\<rparr>)"
  by simp

lemma destroy_at_exec:
  "block_at (heap s) a = Some blk \<Longrightarrow> i < length blk \<Longrightarrow> blk ! i = Obj v \<Longrightarrow>
   destroy_at (Ptr a i) s = Inr ((), s\<lparr>heap := (heap s)[a := Some (blk[i := Raw])]\<rparr>)"
  by (simp add: destroy_at_def bind_def)

lemma destroy_from_exec:
  "block_at (heap s) a = Some blk \<Longrightarrow> i + k + n \<le> length blk \<Longrightarrow>
   \<forall>j. i + k \<le> j \<and> j < i + k + n \<longrightarrow> blk ! j \<noteq> Raw \<Longrightarrow>
   destroy_from (Ptr a i) k n s =
     Inr ((), s\<lparr>heap := (heap s)[a := Some (overwrite blk (i + k) (replicate n Raw))]\<rparr>)"
proof (induction n arbitrary: k s blk)
  case 0
  then show ?case
    by (simp add: return_def update_block_same)
next
  case (Suc n)
  from Suc.prems have lt: "i + k < length blk" and live: "blk ! (i + k) \<noteq> Raw" by auto
  then obtain v where v: "blk ! (i + k) = Obj v" by (cases "blk ! (i + k)") auto
  have a: "a < length (heap s)" using Suc.prems(1) by (rule block_at_Some_less)
  let ?s1 = "s\<lparr>heap := (heap s)[a := Some (blk[i + k := Raw])]\<rparr>"
  have step: "destroy_at (Ptr a (i + k)) s = Inr ((), ?s1)"
    using Suc.prems(1) lt v by (rule destroy_at_exec)
  have IH: "destroy_from (Ptr a i) (Suc k) n ?s1 =
     Inr ((), ?s1\<lparr>heap := (heap ?s1)[a := Some (overwrite (blk[i + k := Raw]) (i + Suc k) (replicate n Raw))]\<rparr>)"
    using Suc.prems a by (intro Suc.IH) auto
  have ow: "overwrite (blk[i + k := Raw]) (Suc (i + k)) (replicate n Raw) = overwrite blk (i + k) (replicate (Suc n) Raw)"
    using Suc.prems(2) by (subst overwrite_Cons) auto
  show ?case
    using step IH ow by (simp add: bind_def return_def)
qed

lemma may_throw_exec:
  "may_throw opn s =
     (case elem_faults s of
        [] \<Rightarrow> Inr ((), s)
      | f # fs \<Rightarrow> if f then Inl (Thrown opn, s\<lparr>elem_faults := fs\<rparr>) else Inr ((), s\<lparr>elem_faults := fs\<rparr>))"
  by (simp add: may_throw_def next_fault_def bind_def return_def raise_def split: list.splits)

lemma destroy_n_exec:
  "block_at (heap s) a = Some blk \<Longrightarrow> i + n \<le> length blk \<Longrightarrow>
   \<forall>j. i \<le> j \<and> j < i + n \<longrightarrow> blk ! j \<noteq> Raw \<Longrightarrow>
   destroy_n (Ptr a i) n s =
     Inr ((), s\<lparr>heap := (heap s)[a := Some (overwrite blk i (replicate n Raw))]\<rparr>)"
  using destroy_from_exec [of s a blk i 0 n] by (simp add: destroy_n_def)

lemma destroy_n_zero [simp]: "destroy_n p 0 = return ()"
  by (simp add: destroy_n_def)

lemma heap_update_twice [simp]: "h[a := x, a := y] = h[a := y]"
  by simp

lemma first_fault_less:
  "True \<in> set (take n fs) \<Longrightarrow> length (takeWhile Not fs) < n"
proof (induction fs arbitrary: n)
  case Nil
  then show ?case by simp
next
  case (Cons f fs)
  then show ?case by (cases n) auto
qed

lemma uninitialized_copy_from_exec:
  assumes "block_at (heap s) a = Some sb" "block_at (heap s) b = Some db" "a \<noteq> b"
    and "i + k + n \<le> length sb" "j + k + n \<le> length db"
    and "\<forall>m. i + k \<le> m \<and> m < i + k + n \<longrightarrow> sb ! m \<noteq> Raw"
    and "\<forall>m. j \<le> m \<and> m < j + k \<longrightarrow> db ! m \<noteq> Raw"
    and "copy_constructible T"
  shows "uninitialized_copy_from T (Ptr a i) (Ptr b j) k n s =
     (if True \<in> set (take n (elem_faults s))
      then Inl (Thrown CopyCtor,
             s\<lparr>heap := (heap s)[b := Some (overwrite db j
                    (replicate (k + length (takeWhile Not (elem_faults s))) Raw))],
               elem_faults := tl (dropWhile Not (elem_faults s))\<rparr>)
      else Inr ((), s\<lparr>heap := (heap s)[b := Some (overwrite db (j + k) (take n (drop (i + k) sb)))],
                     elem_faults := drop n (elem_faults s)\<rparr>))"
  using assms
proof (induction n arbitrary: k s db)
  case 0
  then show ?case by (simp add: return_def update_block_same)
next
  case (Suc n)
  from Suc.prems have lt: "i + k < length sb" "j + k < length db" and "sb ! (i + k) \<noteq> Raw" by auto
  then obtain v where v: "sb ! (i + k) = Obj v" by (cases "sb ! (i + k)") auto
  have b: "b < length (heap s)" using Suc.prems(2) by (rule block_at_Some_less)
  have tk: "take (Suc n) (drop (i + k) sb) = Obj v # take n (drop (Suc (i + k)) sb)"
    using lt v by (simp add: Cons_nth_drop_Suc [symmetric])
  let ?db1 = "db[j + k := Obj v]"
  have ow: "overwrite ?db1 (Suc (j + k)) (take n (drop (Suc (i + k)) sb)) =
            overwrite db (j + k) (take (Suc n) (drop (i + k) sb))"
    using Suc.prems(4,5) by (subst overwrite_Cons) (auto simp: tk)
  show ?case
  proof (cases "elem_faults s")
    case Nil
    let ?s1 = "s\<lparr>heap := (heap s)[b := Some ?db1]\<rparr>"
    have c: "copy_construct T (Ptr a (i + k)) (Ptr b (j + k)) s = Inr ((), ?s1)"
      using Suc.prems lt v Nil by (simp add: copy_construct_def bind_def may_throw_exec)
    have IH: "uninitialized_copy_from T (Ptr a i) (Ptr b j) (Suc k) n ?s1 =
       Inr ((), ?s1\<lparr>heap := (heap ?s1)[b := Some (overwrite ?db1 (j + Suc k) (take n (drop (i + Suc k) sb)))],
                      elem_faults := drop n (elem_faults ?s1)\<rparr>)"
      using Suc.prems b Nil by (subst Suc.IH [where db = ?db1]) (auto simp: nth_list_update)
    show ?thesis
      using c IH ow Nil by (simp add: bind_def return_def unwind_def try_catch_def)
  next
    case (Cons f fs)
    show ?thesis
    proof (cases f)
      case True
      let ?s1 = "s\<lparr>elem_faults := fs\<rparr>"
      have c: "copy_construct T (Ptr a (i + k)) (Ptr b (j + k)) s = Inl (Thrown CopyCtor, ?s1)"
        using Suc.prems lt v Cons True by (simp add: copy_construct_def bind_def may_throw_exec)
      have d: "destroy_n (Ptr b j) k ?s1 =
          Inr ((), ?s1\<lparr>heap := (heap ?s1)[b := Some (overwrite db j (replicate k Raw))]\<rparr>)"
        using Suc.prems by (intro destroy_n_exec) auto
      show ?thesis
        using c d Cons True by (simp add: bind_def return_def raise_def unwind_def try_catch_def)
    next
      case False
      let ?s1 = "s\<lparr>heap := (heap s)[b := Some ?db1], elem_faults := fs\<rparr>"
      have c: "copy_construct T (Ptr a (i + k)) (Ptr b (j + k)) s = Inr ((), ?s1)"
        using Suc.prems lt v Cons False by (simp add: copy_construct_def bind_def may_throw_exec)
      have IH: "uninitialized_copy_from T (Ptr a i) (Ptr b j) (Suc k) n ?s1 =
        (if True \<in> set (take n (elem_faults ?s1))
         then Inl (Thrown CopyCtor,
             ?s1\<lparr>heap := (heap ?s1)[b := Some (overwrite ?db1 j
                    (replicate (Suc k + length (takeWhile Not (elem_faults ?s1))) Raw))],
               elem_faults := tl (dropWhile Not (elem_faults ?s1))\<rparr>)
         else Inr ((), ?s1\<lparr>heap := (heap ?s1)[b := Some (overwrite ?db1 (j + Suc k) (take n (drop (i + Suc k) sb)))],
                      elem_faults := drop n (elem_faults ?s1)\<rparr>))"
        using Suc.prems b by (subst Suc.IH [where db = ?db1]) (auto simp: nth_list_update)
      have ow2: "\<And>m. j + k < j + m \<Longrightarrow> j + m \<le> length db \<Longrightarrow>
            overwrite ?db1 j (replicate m Raw) = overwrite db j (replicate m Raw)"
        by (rule nth_equalityI) (auto simp: nth_overwrite nth_list_update)
      have len: "True \<in> set (take n fs) \<Longrightarrow> Suc (k + length (takeWhile Not fs)) \<le> k + Suc n"
        using first_fault_less [of n fs] by simp
      show ?thesis
      proof (cases "True \<in> set (take n fs)")
        case True
        have "overwrite ?db1 j (replicate (Suc k + length (takeWhile Not fs)) Raw) =
              overwrite db j (replicate (Suc k + length (takeWhile Not fs)) Raw)"
          using len [OF True] Suc.prems(5) by (intro ow2) auto
        then show ?thesis
          using c IH Cons False True by (simp add: bind_def return_def unwind_def try_catch_def)
      next
        case no: False
        then show ?thesis
          using c IH ow Cons False by (simp add: bind_def return_def unwind_def try_catch_def)
      qed
    qed
  qed
qed

lemma heap_update_four:
  "a \<noteq> b \<Longrightarrow> h[b := x, a := y, b := x', a := y'] = h[b := x', a := y']"
proof -
  assume ab: "a \<noteq> b"
  have "h[b := x, a := y, b := x'] = h[b := x, b := x', a := y]"
    using ab by (simp add: list_update_swap [of a b])
  then show ?thesis by simp
qed

lemma move_construct_exec:
  assumes "block_at (heap s) a = Some sb" "block_at (heap s) b = Some db" "a \<noteq> b"
    and "i < length sb" "j < length db" "sb ! i = Obj v"
  shows "move_construct T (Ptr a i) (Ptr b j) s =
     (if nothrow_move_constructible T then
        Inr ((), s\<lparr>heap := (heap s)[b := Some (db[j := Obj v]), a := Some (sb[i := Obj (moved_from T v)])]\<rparr>)
      else (case elem_faults s of
          [] \<Rightarrow> Inr ((), s\<lparr>heap := (heap s)[b := Some (db[j := Obj v]), a := Some (sb[i := Obj (moved_from T v)])]\<rparr>)
        | f # fs \<Rightarrow> if f then Inl (Thrown MoveCtor, s\<lparr>elem_faults := fs\<rparr>)
            else Inr ((), s\<lparr>heap := (heap s)[b := Some (db[j := Obj v]), a := Some (sb[i := Obj (moved_from T v)])],
                           elem_faults := fs\<rparr>)))"
  using assms block_at_Some_less [OF assms(1)] block_at_Some_less [OF assms(2)]
  by (simp add: move_construct_def bind_def may_throw_exec return_def split: list.splits)

lemma uninitialized_move_from_exec:
  assumes "block_at (heap s) a = Some sb" "block_at (heap s) b = Some db" "a \<noteq> b"
    and "i + k + n \<le> length sb" "j + k + n \<le> length db"
    and "\<forall>m. i + k \<le> m \<and> m < i + k + n \<longrightarrow> sb ! m \<noteq> Raw"
    and "\<forall>m. j \<le> m \<and> m < j + k \<longrightarrow> db ! m \<noteq> Raw"
  shows "case uninitialized_move_from T (Ptr a i) (Ptr b j) k n s of
       Inr (u, s') \<Rightarrow>
         s' = s\<lparr>heap := (heap s)[b := Some (overwrite db (j + k) (take n (drop (i + k) sb))),
                                 a := Some (overwrite sb (i + k) (map (mv T) (take n (drop (i + k) sb))))],
                elem_faults := (if nothrow_move_constructible T then elem_faults s
                                else drop n (elem_faults s))\<rparr>
         \<and> (nothrow_move_constructible T \<or> True \<notin> set (take n (elem_faults s)))
     | Inl (e, s') \<Rightarrow>
         e = Thrown MoveCtor \<and> \<not> nothrow_move_constructible T \<and> True \<in> set (take n (elem_faults s))"
  using assms
proof (induction n arbitrary: k s db sb)
  case 0
  then show ?case by (simp add: return_def update_block_same)
next
  case (Suc n)
  from Suc.prems have lt: "i + k < length sb" "j + k < length db" and "sb ! (i + k) \<noteq> Raw" by auto
  then obtain v where v: "sb ! (i + k) = Obj v" by (cases "sb ! (i + k)") auto
  have a: "a < length (heap s)" using Suc.prems(1) by (rule block_at_Some_less)
  have b: "b < length (heap s)" using Suc.prems(2) by (rule block_at_Some_less)
  have tk: "take (Suc n) (drop (i + k) sb) = Obj v # take n (drop (Suc (i + k)) sb)"
    using lt v by (simp add: Cons_nth_drop_Suc [symmetric])
  let ?db1 = "db[j + k := Obj v]"
  let ?sb1 = "sb[i + k := Obj (moved_from T v)]"
  have ow: "overwrite ?db1 (Suc (j + k)) (take n (drop (Suc (i + k)) sb)) =
            overwrite db (j + k) (take (Suc n) (drop (i + k) sb))"
    using Suc.prems(4,5) by (subst overwrite_Cons) (auto simp: tk)
  have ow': "overwrite ?sb1 (Suc (i + k)) (map (mv T) (take n (drop (Suc (i + k)) sb))) =
            overwrite sb (i + k) (map (mv T) (take (Suc n) (drop (i + k) sb)))"
    using Suc.prems(4,5) by (subst overwrite_Cons) (auto simp: tk mv_def)
  have m: "move_construct T (Ptr a (i + k)) (Ptr b (j + k)) s = (if nothrow_move_constructible T then
        Inr ((), s\<lparr>heap := (heap s)[b := Some ?db1, a := Some ?sb1]\<rparr>)
      else (case elem_faults s of
          [] \<Rightarrow> Inr ((), s\<lparr>heap := (heap s)[b := Some ?db1, a := Some ?sb1]\<rparr>)
        | f # fs \<Rightarrow> if f then Inl (Thrown MoveCtor, s\<lparr>elem_faults := fs\<rparr>)
            else Inr ((), s\<lparr>heap := (heap s)[b := Some ?db1, a := Some ?sb1], elem_faults := fs\<rparr>)))"
    using Suc.prems(1,2,3) lt v by (rule move_construct_exec)
  show ?case
  proof (cases "\<not> nothrow_move_constructible T \<and> (\<exists>fs. elem_faults s = True # fs)")
    case True
    then obtain fs where fs: "elem_faults s = True # fs" and nt: "\<not> nothrow_move_constructible T" by auto
    let ?s1 = "s\<lparr>elem_faults := fs\<rparr>"
    have d: "destroy_n (Ptr b j) k ?s1 =
          Inr ((), ?s1\<lparr>heap := (heap ?s1)[b := Some (overwrite db j (replicate k Raw))]\<rparr>)"
      using Suc.prems by (intro destroy_n_exec) auto
    show ?thesis
      using m d fs nt by (simp add: bind_def return_def raise_def unwind_def try_catch_def)
  next
    case False
    define fs' where "fs' = (if nothrow_move_constructible T then elem_faults s else tl (elem_faults s))"
    let ?s1 = "s\<lparr>heap := (heap s)[b := Some ?db1, a := Some ?sb1], elem_faults := fs'\<rparr>"
    have m1: "move_construct T (Ptr a (i + k)) (Ptr b (j + k)) s = Inr ((), ?s1)"
      using m False by (auto simp: fs'_def split: list.splits)
    have IH: "case uninitialized_move_from T (Ptr a i) (Ptr b j) (Suc k) n ?s1 of
       Inr (u, s') \<Rightarrow>
         s' = ?s1\<lparr>heap := (heap ?s1)[b := Some (overwrite ?db1 (j + Suc k) (take n (drop (i + Suc k) ?sb1))),
                                 a := Some (overwrite ?sb1 (i + Suc k) (map (mv T) (take n (drop (i + Suc k) ?sb1))))],
                elem_faults := (if nothrow_move_constructible T then elem_faults ?s1
                                else drop n (elem_faults ?s1))\<rparr>
         \<and> (nothrow_move_constructible T \<or> True \<notin> set (take n (elem_faults ?s1)))
     | Inl (e, s') \<Rightarrow>
         e = Thrown MoveCtor \<and> \<not> nothrow_move_constructible T \<and> True \<in> set (take n (elem_faults ?s1))"
      using Suc.prems a b by (intro Suc.IH) (auto simp: nth_list_update)
    have hd: "\<not> nothrow_move_constructible T \<Longrightarrow>
         (True \<in> set (take (Suc n) (elem_faults s))) = (True \<in> set (take n fs'))"
      using False by (cases "elem_faults s") (auto simp: fs'_def)
    have dr: "\<not> nothrow_move_constructible T \<Longrightarrow> drop (Suc n) (elem_faults s) = drop n fs'"
      by (cases "elem_faults s") (auto simp: fs'_def)
    show ?thesis
    proof (cases "uninitialized_move_from T (Ptr a i) (Ptr b j) (Suc k) n ?s1")
      case (Inl x)
      then show ?thesis
        using m1 IH hd by (cases x) (simp add: bind_def unwind_def try_catch_def)
    next
      case (Inr x)
      then show ?thesis
        using m1 IH hd dr ow ow' Suc.prems(3)
        by (cases x) (auto simp: bind_def unwind_def try_catch_def heap_update_four fs'_def)
    qed
  qed
qed

lemma value_construct_exec:
  assumes "block_at (heap s) b = Some db" "j < length db"
  shows "value_construct T (Ptr b j) s =
     (case elem_faults s of
        [] \<Rightarrow> Inr ((), s\<lparr>heap := (heap s)[b := Some (db[j := Obj (value_init T)])]\<rparr>)
      | f # fs \<Rightarrow> if f then Inl (Thrown ValueInit, s\<lparr>elem_faults := fs\<rparr>)
          else Inr ((), s\<lparr>heap := (heap s)[b := Some (db[j := Obj (value_init T)])], elem_faults := fs\<rparr>))"
  using assms by (simp add: value_construct_def bind_def may_throw_exec split: list.splits)

lemma uninitialized_value_construct_from_exec:
  assumes "block_at (heap s) b = Some db" "j + k + n \<le> length db"
    and "\<forall>m. j \<le> m \<and> m < j + k \<longrightarrow> db ! m \<noteq> Raw"
  shows "uninitialized_value_construct_from T (Ptr b j) k n s =
     (if True \<in> set (take n (elem_faults s))
      then Inl (Thrown ValueInit,
             s\<lparr>heap := (heap s)[b := Some (overwrite db j
                    (replicate (k + length (takeWhile Not (elem_faults s))) Raw))],
               elem_faults := tl (dropWhile Not (elem_faults s))\<rparr>)
      else Inr ((), s\<lparr>heap := (heap s)[b := Some (overwrite db (j + k) (replicate n (Obj (value_init T))))],
                     elem_faults := drop n (elem_faults s)\<rparr>))"
  using assms
proof (induction n arbitrary: k s db)
  case 0
  then show ?case by (simp add: return_def update_block_same)
next
  case (Suc n)
  from Suc.prems have lt: "j + k < length db" by auto
  have b: "b < length (heap s)" using Suc.prems(1) by (rule block_at_Some_less)
  let ?v = "Obj (value_init T)"
  let ?db1 = "db[j + k := ?v]"
  have ow: "overwrite ?db1 (Suc (j + k)) (replicate n ?v) = overwrite db (j + k) (replicate (Suc n) ?v)"
    using Suc.prems(2) by (subst overwrite_Cons) auto
  have ow2: "\<And>m. j + k < j + m \<Longrightarrow> j + m \<le> length db \<Longrightarrow>
        overwrite ?db1 j (replicate m Raw) = overwrite db j (replicate m Raw)"
    by (rule nth_equalityI) (auto simp: nth_overwrite nth_list_update)
  note c = value_construct_exec [OF Suc.prems(1) lt, of T]
  show ?case
  proof (cases "\<exists>fs. elem_faults s = True # fs")
    case True
    then obtain fs where fs: "elem_faults s = True # fs" by auto
    let ?s1 = "s\<lparr>elem_faults := fs\<rparr>"
    have d: "destroy_n (Ptr b j) k ?s1 =
        Inr ((), ?s1\<lparr>heap := (heap ?s1)[b := Some (overwrite db j (replicate k Raw))]\<rparr>)"
      using Suc.prems by (intro destroy_n_exec) auto
    show ?thesis
      using c d fs by (simp add: bind_def return_def raise_def unwind_def try_catch_def)
  next
    case False
    define fs' where "fs' = tl (elem_faults s)"
    let ?s1 = "s\<lparr>heap := (heap s)[b := Some ?db1], elem_faults := fs'\<rparr>"
    have c1: "value_construct T (Ptr b (j + k)) s = Inr ((), ?s1)"
      using c False by (auto simp: fs'_def split: list.splits)
    have IH: "uninitialized_value_construct_from T (Ptr b j) (Suc k) n ?s1 =
        (if True \<in> set (take n (elem_faults ?s1))
         then Inl (Thrown ValueInit,
             ?s1\<lparr>heap := (heap ?s1)[b := Some (overwrite ?db1 j
                    (replicate (Suc k + length (takeWhile Not (elem_faults ?s1))) Raw))],
               elem_faults := tl (dropWhile Not (elem_faults ?s1))\<rparr>)
         else Inr ((), ?s1\<lparr>heap := (heap ?s1)[b := Some (overwrite ?db1 (j + Suc k) (replicate n ?v))],
                      elem_faults := drop n (elem_faults ?s1)\<rparr>))"
      using Suc.prems b by (subst Suc.IH [where db = ?db1]) (auto simp: nth_list_update)
    have hd: "(True \<in> set (take (Suc n) (elem_faults s))) = (True \<in> set (take n fs'))"
      using False by (cases "elem_faults s") (auto simp: fs'_def)
    have dr: "drop (Suc n) (elem_faults s) = drop n fs'"
      by (cases "elem_faults s") (auto simp: fs'_def)
    show ?thesis
    proof (cases "True \<in> set (take n fs')")
      case True
      have tw: "length (takeWhile Not (elem_faults s)) = Suc (length (takeWhile Not fs'))"
        and dw: "dropWhile Not (elem_faults s) = dropWhile Not fs'"
        using False True by (cases "elem_faults s"; auto simp: fs'_def)+
      have "overwrite ?db1 j (replicate (Suc k + length (takeWhile Not fs')) Raw) =
            overwrite db j (replicate (Suc k + length (takeWhile Not fs')) Raw)"
        using first_fault_less [OF True] Suc.prems(2) by (intro ow2) auto
      then show ?thesis
        using c1 IH True hd tw dw by (simp add: bind_def return_def unwind_def try_catch_def)
    next
      case no: False
      then show ?thesis
        using c1 IH ow hd dr by (simp add: bind_def return_def unwind_def try_catch_def)
    qed
  qed
qed

lemma copy_assign_exec:
  assumes "block_at (heap s) a = Some sb" "block_at (heap s) b = Some db" "a \<noteq> b"
    and "i < length sb" "j < length db" "sb ! i = Obj v" "db ! j \<noteq> Raw"
  shows "copy_assign T (Ptr a i) (Ptr b j) s =
     (case elem_faults s of
        [] \<Rightarrow> Inr ((), s\<lparr>heap := (heap s)[b := Some (db[j := Obj v])]\<rparr>)
      | f # fs \<Rightarrow> if f then Inl (Thrown CopyAssign, s\<lparr>elem_faults := fs\<rparr>)
          else Inr ((), s\<lparr>heap := (heap s)[b := Some (db[j := Obj v])], elem_faults := fs\<rparr>))"
proof -
  obtain w where "db ! j = Obj w" using assms(7) by (cases "db ! j") auto
  then show ?thesis
    using assms by (simp add: copy_assign_def bind_def may_throw_exec split: list.splits)
qed

lemma copy_from_exec:
  assumes "block_at (heap s) a = Some sb" "block_at (heap s) b = Some db" "a \<noteq> b"
    and "i + k + n \<le> length sb" "j + k + n \<le> length db"
    and "\<forall>m. i + k \<le> m \<and> m < i + k + n \<longrightarrow> sb ! m \<noteq> Raw"
    and "\<forall>m. j + k \<le> m \<and> m < j + k + n \<longrightarrow> db ! m \<noteq> Raw"
  shows "case copy_from T (Ptr a i) (Ptr b j) k n s of
       Inr (u, s') \<Rightarrow>
         s' = s\<lparr>heap := (heap s)[b := Some (overwrite db (j + k) (take n (drop (i + k) sb)))],
                elem_faults := drop n (elem_faults s)\<rparr>
         \<and> True \<notin> set (take n (elem_faults s))
     | Inl (e, s') \<Rightarrow> e = Thrown CopyAssign \<and> True \<in> set (take n (elem_faults s))"
  using assms
proof (induction n arbitrary: k s db)
  case 0
  then show ?case by (simp add: return_def update_block_same)
next
  case (Suc n)
  from Suc.prems have lt: "i + k < length sb" "j + k < length db"
    and "sb ! (i + k) \<noteq> Raw" and dl: "db ! (j + k) \<noteq> Raw" by auto
  then obtain v where v: "sb ! (i + k) = Obj v" by (cases "sb ! (i + k)") auto
  have b: "b < length (heap s)" using Suc.prems(2) by (rule block_at_Some_less)
  have tk: "take (Suc n) (drop (i + k) sb) = Obj v # take n (drop (Suc (i + k)) sb)"
    using lt v by (simp add: Cons_nth_drop_Suc [symmetric])
  let ?db1 = "db[j + k := Obj v]"
  have ow: "overwrite ?db1 (Suc (j + k)) (take n (drop (Suc (i + k)) sb)) =
            overwrite db (j + k) (take (Suc n) (drop (i + k) sb))"
    using Suc.prems(4,5) by (subst overwrite_Cons) (auto simp: tk)
  note c = copy_assign_exec [OF Suc.prems(1,2,3) lt v dl, of T]
  show ?case
  proof (cases "\<exists>fs. elem_faults s = True # fs")
    case True
    then show ?thesis
      using c by (auto simp: bind_def return_def)
  next
    case False
    define fs' where "fs' = tl (elem_faults s)"
    let ?s1 = "s\<lparr>heap := (heap s)[b := Some ?db1], elem_faults := fs'\<rparr>"
    have c1: "copy_assign T (Ptr a (i + k)) (Ptr b (j + k)) s = Inr ((), ?s1)"
      using c False by (auto simp: fs'_def split: list.splits)
    have IH: "case copy_from T (Ptr a i) (Ptr b j) (Suc k) n ?s1 of
       Inr (u, s') \<Rightarrow>
         s' = ?s1\<lparr>heap := (heap ?s1)[b := Some (overwrite ?db1 (j + Suc k) (take n (drop (i + Suc k) sb)))],
                elem_faults := drop n (elem_faults ?s1)\<rparr>
         \<and> True \<notin> set (take n (elem_faults ?s1))
     | Inl (e, s') \<Rightarrow> e = Thrown CopyAssign \<and> True \<in> set (take n (elem_faults ?s1))"
      using Suc.prems b by (intro Suc.IH) (auto simp: nth_list_update)
    have hd: "(True \<in> set (take (Suc n) (elem_faults s))) = (True \<in> set (take n fs'))"
      using False by (cases "elem_faults s") (auto simp: fs'_def)
    have dr: "drop (Suc n) (elem_faults s) = drop n fs'"
      by (cases "elem_faults s") (auto simp: fs'_def)
    show ?thesis
    proof (cases "copy_from T (Ptr a i) (Ptr b j) (Suc k) n ?s1")
      case (Inl x)
      then show ?thesis
        using c1 IH hd by (cases x) (simp add: bind_def)
    next
      case (Inr x)
      then show ?thesis
        using c1 IH hd dr ow by (cases x) (simp add: bind_def)
    qed
  qed
qed

lemma RawMemory_fields_eq [simp]:
  "rm\<lparr>m_buffer := m_buffer (r :: RawMemory), m_capacity := m_capacity r\<rparr> = r"
  by (cases rm, cases r) simp

lemma Vector_fields_eq [simp]:
  "v\<lparr>m_data := m_data (w :: Vector), m_size := m_size w\<rparr> = w"
  by (cases v, cases w) simp

lemma Vector_move_assign_exec:
  assumes "a \<noteq> b" "a < length (vecs s)" "b < length (vecs s)"
  shows "Vector_move_assign b a s = Inr ((), s\<lparr>vecs := (vecs s)[b := vecs s ! a, a := vecs s ! b]\<rparr>)"
  using assms
  by (simp add: Vector_move_assign_def bind_def get_vec_def put_vec_def RawMemory_Swap_def)

section \<open>Specifications of the member functions\<close>

lemma get_vec_exec [simp]: "this < length (vecs s) \<Longrightarrow> get_vec this s = Inr (vecs s ! this, s)"
  by (simp add: get_vec_def)

lemma uninitialized_copy_n_zero [simp]: "uninitialized_copy_n T p 0 q = return ()"
  by (simp add: uninitialized_copy_n_def)

lemma uninitialized_move_n_zero [simp]: "uninitialized_move_n T p 0 q = return ()"
  by (simp add: uninitialized_move_n_def)

lemma uninitialized_value_construct_n_zero [simp]: "uninitialized_value_construct_n T p 0 = return ()"
  by (simp add: uninitialized_value_construct_n_def)

lemma copy_n_zero [simp]: "copy_n T p 0 q = return ()"
  by (simp add: copy_n_def)

lemma RawMemory_Swap_eq [simp]: "RawMemory_Swap x y = (y, x)"
  by (simp add: RawMemory_Swap_def)

lemma vector_okD:
  assumes "vector_ok s this xs"
  shows "this < length (vecs s)" "m_size (vecs s ! this) = length xs"
    "length xs \<le> m_capacity (m_data (vecs s ! this))"
    "m_buffer (m_data (vecs s ! this)) = Null \<Longrightarrow> m_capacity (m_data (vecs s ! this)) = 0 \<and> xs = []"
    "m_buffer (m_data (vecs s ! this)) = Ptr a i \<Longrightarrow>
       i = 0 \<and> (\<exists>blk. block_at (heap s) a = Some blk \<and> length blk = m_capacity (m_data (vecs s ! this))
                \<and> take (length xs) blk = map Obj xs)"
  using assms by (auto simp: vector_ok_def split: option.splits)

lemma prefix_live:
  "take n blk = map Obj xs \<Longrightarrow> length xs = n \<Longrightarrow> m < n \<Longrightarrow> blk ! m = Obj (xs ! m)"
  by (metis length_map nth_map nth_take)

lemma MoveOrCopy_spec:
  assumes ok: "vector_ok s this xs"
    and nd: "m_buffer new_data = Ptr b 0"
    and db: "block_at (heap s) b = Some db" "length xs \<le> length db"
    and fresh: "b \<notin> block_of (m_data (vecs s ! this))"
  shows "case MoveOrCopy T this new_data s of
      Inr (old, s') \<Rightarrow>
        old = m_data (vecs s ! this) \<and>
        vecs s' = (vecs s)[this := (vecs s ! this)\<lparr>m_data := new_data\<rparr>] \<and>
        alloc_faults s' = alloc_faults s \<and>
        length (heap s') = length (heap s) \<and>
        block_at (heap s') b = Some (overwrite db 0 (map Obj xs)) \<and>
        (\<forall>c. c \<noteq> b \<and> c \<notin> block_of (m_data (vecs s ! this)) \<longrightarrow> block_at (heap s') c = block_at (heap s) c) \<and>
        (\<forall>a \<in> block_of (m_data (vecs s ! this)). block_at (heap s') a \<noteq> None) \<and>
        (elem_faults s = [] \<longrightarrow> elem_faults s' = []) \<and>
        elem_faults s' = (if nothrow_move_constructible T then elem_faults s
                          else drop (length xs) (elem_faults s)) \<and>
        (nothrow_move_constructible T \<or> True \<notin> set (take (length xs) (elem_faults s)))
    | Inl (e, s') \<Rightarrow>
        elem_faults s \<noteq> [] \<and> \<not> nothrow_move_constructible T \<and>
        True \<in> set (take (length xs) (elem_faults s)) \<and>
        (if copy_constructible T
         then e = Thrown CopyCtor \<and> vecs s' = vecs s \<and> alloc_faults s' = alloc_faults s \<and>
              length (heap s') = length (heap s) \<and>
              (\<forall>c. c \<noteq> b \<longrightarrow> block_at (heap s') c = block_at (heap s) c) \<and>
              block_at (heap s') b \<noteq> None
         else e = Thrown MoveCtor)"
proof (cases "m_buffer (m_data (vecs s ! this))")
  case Null
  with vector_okD [OF ok] have "xs = []" "this < length (vecs s)" "m_size (vecs s ! this) = 0" by auto
  then show ?thesis
    using Null db nd
    by (simp add: MoveOrCopy_def bind_def return_def put_vec_def block_of_def)
next
  case (Ptr a i)
  with vector_okD [OF ok] obtain sb where
    i: "i = 0" and th: "this < length (vecs s)" and sz: "m_size (vecs s ! this) = length xs"
    and sb: "block_at (heap s) a = Some sb" "length sb = m_capacity (m_data (vecs s ! this))"
           "take (length xs) sb = map Obj xs"
    and cap: "length xs \<le> m_capacity (m_data (vecs s ! this))"
    by auto
  have ab: "a \<noteq> b" using fresh Ptr by (simp add: block_of_def)
  have bl: "b < length (heap s)" using db(1) by (rule block_at_Some_less)
  have live: "\<forall>m. 0 + 0 \<le> m \<and> m < 0 + 0 + length xs \<longrightarrow> sb ! m \<noteq> Raw"
    using prefix_live [OF sb(3)] by auto
  let ?n = "length xs"
  show ?thesis
  proof (cases "nothrow_move_constructible T \<or> \<not> copy_constructible T")
    case True
    have mv: "case uninitialized_move_from T (Ptr a 0) (Ptr b 0) 0 ?n s of
       Inr (u, s') \<Rightarrow>
         s' = s\<lparr>heap := (heap s)[b := Some (overwrite db (0 + 0) (take ?n (drop (0 + 0) sb))),
                                 a := Some (overwrite sb (0 + 0) (map (mv T) (take ?n (drop (0 + 0) sb))))],
                elem_faults := (if nothrow_move_constructible T then elem_faults s
                                else drop ?n (elem_faults s))\<rparr>
         \<and> (nothrow_move_constructible T \<or> True \<notin> set (take ?n (elem_faults s)))
     | Inl (e, s') \<Rightarrow>
         e = Thrown MoveCtor \<and> \<not> nothrow_move_constructible T \<and> True \<in> set (take ?n (elem_faults s))"
      using sb(1) db(1) ab cap sb(2) db(2) live
      by (intro uninitialized_move_from_exec) auto
    show ?thesis
    proof (cases "uninitialized_move_from T (Ptr a 0) (Ptr b 0) 0 ?n s")
      case (Inl x)
      then show ?thesis
        using mv True Ptr i th sz nd
        by (cases x) (auto simp: MoveOrCopy_def bind_def uninitialized_move_n_def)
    next
      case (Inr x)
      obtain u s1 where x: "x = (u, s1)" by (cases x)
      let ?sb1 = "overwrite sb 0 (map (mv T) (map Obj xs))"
      have s1: "s1 = s\<lparr>heap := (heap s)[b := Some (overwrite db 0 (map Obj xs)), a := Some ?sb1],
                elem_faults := (if nothrow_move_constructible T then elem_faults s
                                else drop ?n (elem_faults s))\<rparr>"
        using mv Inr x sb(3) by simp
      have nf: "nothrow_move_constructible T \<or> True \<notin> set (take ?n (elem_faults s))"
        using mv Inr x by simp
      have a: "a < length (heap s)" using sb(1) by (rule block_at_Some_less)
      have b1: "block_at (heap s1) a = Some ?sb1"
        using s1 a ab by simp
      have d: "destroy_n (Ptr a 0) ?n s1 =
           Inr ((), s1\<lparr>heap := (heap s1)[a := Some (overwrite ?sb1 0 (replicate ?n Raw))]\<rparr>)"
        using b1 cap sb(2)
        by (intro destroy_n_exec) (auto simp: nth_overwrite mv_def)
      show ?thesis
        using Inr x d True Ptr i th sz s1 ab a nd bl nf
        by (auto simp: MoveOrCopy_def bind_def uninitialized_move_n_def return_def put_vec_def
            block_of_def)
    qed
  next
    case False
    then have cc: "copy_constructible T" and nt: "\<not> nothrow_move_constructible T" by auto
    have cp: "uninitialized_copy_from T (Ptr a 0) (Ptr b 0) 0 ?n s =
     (if True \<in> set (take ?n (elem_faults s))
      then Inl (Thrown CopyCtor,
             s\<lparr>heap := (heap s)[b := Some (overwrite db 0
                    (replicate (0 + length (takeWhile Not (elem_faults s))) Raw))],
               elem_faults := tl (dropWhile Not (elem_faults s))\<rparr>)
      else Inr ((), s\<lparr>heap := (heap s)[b := Some (overwrite db (0 + 0) (take ?n (drop (0 + 0) sb)))],
                     elem_faults := drop ?n (elem_faults s)\<rparr>))"
      using sb(1) db(1) ab cap sb(2) db(2) live cc
      by (intro uninitialized_copy_from_exec) auto
    show ?thesis
    proof (cases "True \<in> set (take ?n (elem_faults s))")
      case True
      then have "elem_faults s \<noteq> []" by auto
      then show ?thesis
        using cp True False Ptr i th sz nd block_at_Some_less [OF db(1)]
        by (auto simp: MoveOrCopy_def bind_def uninitialized_copy_n_def)
    next
      case no: False
      let ?s1 = "s\<lparr>heap := (heap s)[b := Some (overwrite db 0 (map Obj xs))],
                     elem_faults := drop ?n (elem_faults s)\<rparr>"
      have c1: "uninitialized_copy_from T (Ptr a 0) (Ptr b 0) 0 ?n s = Inr ((), ?s1)"
        using cp no sb(3) by simp
      have b1: "block_at (heap ?s1) a = Some sb"
        using sb(1) ab by simp
      have d: "destroy_n (Ptr a 0) ?n ?s1 =
           Inr ((), ?s1\<lparr>heap := (heap ?s1)[a := Some (overwrite sb 0 (replicate ?n Raw))]\<rparr>)"
        using b1 cap sb(2) live
        by (intro destroy_n_exec) auto
      show ?thesis
        using c1 d False Ptr i th sz ab nd bl block_at_Some_less [OF sb(1)] no
        by (auto simp: MoveOrCopy_def bind_def uninitialized_copy_n_def return_def put_vec_def
            block_of_def)
    qed
  qed
qed







lemma alloc_slots_no_wrap: "no_wrap T n \<Longrightarrow> alloc_slots T n = n"
proof -
  assume nw: "no_wrap T n"
  then have "int n * int (sizeof_T T) < 2 ^ 64"
    unfolding no_wrap_def by (metis of_nat_mult of_nat_less_iff of_nat_numeral of_nat_power)
  then have "size_t (int n * int (sizeof_T T)) = n * sizeof_T T"
    by (simp add: size_t_def nat_mult_distrib)
  then show ?thesis using nw by (simp add: alloc_slots_def no_wrap_def)
qed


lemma RawMemory_ctor_slots:
  "cap \<noteq> 0 \<Longrightarrow> RawMemory_ctor T cap s =
     (case alloc_faults s of
        [] \<Rightarrow> Inr (\<lparr>m_buffer = Ptr (length (heap s)) 0, m_capacity = cap\<rparr>,
                  s\<lparr>heap := heap s @ [Some (replicate (alloc_slots T cap) Raw)]\<rparr>)
      | f # fs \<Rightarrow>
          if f then Inl (BadAlloc, s\<lparr>alloc_faults := fs\<rparr>)
          else Inr (\<lparr>m_buffer = Ptr (length (heap s)) 0, m_capacity = cap\<rparr>,
                    s\<lparr>heap := heap s @ [Some (replicate (alloc_slots T cap) Raw)], alloc_faults := fs\<rparr>))"
  by (simp add: RawMemory_ctor_def Allocate_def operator_new_def alloc_slots_def bind_def return_def
           split: list.splits)

lemma RawMemory_ctor_exec:
  "cap \<noteq> 0 \<Longrightarrow> no_wrap T cap \<Longrightarrow> RawMemory_ctor T cap s =
     (case alloc_faults s of
        [] \<Rightarrow> Inr (\<lparr>m_buffer = Ptr (length (heap s)) 0, m_capacity = cap\<rparr>,
                  s\<lparr>heap := heap s @ [Some (replicate cap Raw)]\<rparr>)
      | f # fs \<Rightarrow>
          if f then Inl (BadAlloc, s\<lparr>alloc_faults := fs\<rparr>)
          else Inr (\<lparr>m_buffer = Ptr (length (heap s)) 0, m_capacity = cap\<rparr>,
                    s\<lparr>heap := heap s @ [Some (replicate cap Raw)], alloc_faults := fs\<rparr>))"
  using alloc_slots_no_wrap [of T cap] by (simp add: RawMemory_ctor_slots split: list.splits)

lemma Deallocate_exec:
  "block_at (heap s) a = Some blk \<Longrightarrow> Deallocate (Ptr a 0) s = Inr ((), s\<lparr>heap := (heap s)[a := None]\<rparr>)"
  by simp


lemma vector_ok_frame:
  assumes "vector_ok s this xs" "vecs s' ! this = vecs s ! this" "this < length (vecs s')"
    and "\<forall>c \<in> block_of (m_data (vecs s ! this)). block_at (heap s') c = block_at (heap s) c"
  shows "vector_ok s' this xs"
  using assms by (auto simp: vector_ok_def block_of_def split: ptr.splits option.splits)









lemma slots_vector_ok: "vector_ok s this xs \<Longrightarrow> slots s this = map Obj xs"
  by (auto simp: vector_ok_def slots_def split: ptr.splits option.splits)

lemma block_of_less:
  "vector_ok s this xs \<Longrightarrow> c \<in> block_of (m_data (vecs s ! this)) \<Longrightarrow> c < length (heap s)"
  by (auto simp: vector_ok_def block_of_def block_at_def split: ptr.splits option.splits if_splits)




lemma take_overwrite_fresh:
  "length ys \<le> n \<Longrightarrow> take (length ys) (overwrite (replicate n Raw) 0 ys) = ys"
  using take_overwrite_end [of 0 ys "replicate n Raw"] by simp

lemma Reserve_spec:
  assumes ok: "vector_ok s this xs"
    and nw: "n \<le> m_capacity (m_data (vecs s ! this)) \<or> no_wrap T n"
  shows "case Reserve T n this s of
      Inr (u, s') \<Rightarrow>
        vector_ok s' this xs \<and> n \<le> m_capacity (m_data (vecs s' ! this)) \<and>
        length (vecs s') = length (vecs s) \<and> (\<forall>t. t \<noteq> this \<longrightarrow> vecs s' ! t = vecs s ! t) \<and>
        length (heap s) \<le> length (heap s') \<and>
        (\<forall>c < length (heap s). c \<notin> block_of (m_data (vecs s ! this))
            \<longrightarrow> block_at (heap s') c = block_at (heap s) c) \<and>
        (quiet s \<longrightarrow> quiet s') \<and>
        elem_faults s' =
          (if n \<le> m_capacity (m_data (vecs s ! this)) \<or> nothrow_move_constructible T
           then elem_faults s else drop (length xs) (elem_faults s))
    | Inl (e, s') \<Rightarrow>
        \<not> quiet s \<and> e \<noteq> Thrown ValueInit \<and>
        m_capacity (m_data (vecs s ! this)) < n \<and>
        (alloc_fails s \<or>
         \<not> nothrow_move_constructible T \<and> True \<in> set (take (length xs) (elem_faults s))) \<and>
        (nothrow_move_constructible T \<or> copy_constructible T \<longrightarrow>
           is_exception e \<and> vecs s' = vecs s \<and> length (heap s) \<le> length (heap s') \<and>
           (\<forall>c < length (heap s). block_at (heap s') c = block_at (heap s) c))"
proof (cases "n \<le> m_capacity (m_data (vecs s ! this))")
  case True
  then show ?thesis
    using ok vector_okD(1) [OF ok] by (simp add: Reserve_def bind_def return_def)
next
  case False
  let ?v = "vecs s ! this"
  let ?b = "length (heap s)"
  let ?nd = "\<lparr>m_buffer = Ptr ?b 0, m_capacity = n\<rparr>"
  from False have n0: "n \<noteq> 0" and big: "m_capacity (m_data ?v) < n" by auto
  from False nw have nwn: "no_wrap T n" by simp
  from vector_okD [OF ok] have th: "this < length (vecs s)" and cap: "length xs \<le> m_capacity (m_data ?v)"
    and sz: "m_size ?v = length xs"
    by auto
  have rs: "Reserve T n this s =
      bind (RawMemory_ctor T n) (\<lambda>new_data.
        bind (unwind (MoveOrCopy T this new_data) (RawMemory_dtor new_data)) (\<lambda>new_data'.
           RawMemory_dtor new_data')) s"
    using th False by (simp add: Reserve_def bind_def)
  show ?thesis
  proof (cases "\<exists>fs. alloc_faults s = True # fs")
    case True
    then show ?thesis
      using rs RawMemory_ctor_exec [OF n0 nwn, of s] big
      by (auto simp: bind_def quiet_def alloc_fails_def)
  next
    case False
    define s1 where "s1 = s\<lparr>heap := heap s @ [Some (replicate n Raw)], alloc_faults := tl (alloc_faults s)\<rparr>"
    have a1: "RawMemory_ctor T n s = Inr (?nd, s1)"
      using False RawMemory_ctor_exec [OF n0 nwn, of s]
      by (cases "alloc_faults s") (auto simp: s1_def)
    have h1: "heap s1 = heap s @ [Some (replicate n Raw)]" "vecs s1 = vecs s"
      "elem_faults s1 = elem_faults s" "alloc_faults s = [] \<longrightarrow> alloc_faults s1 = []"
      by (simp_all add: s1_def)
    have b1: "block_at (heap s1) ?b = Some (replicate n Raw)" by (simp add: h1)
    have blk: "\<forall>c \<in> block_of (m_data ?v). c < ?b"
      using block_of_less [OF ok] by blast
    have ok1: "vector_ok s1 this xs"
    proof (rule vector_ok_frame [OF ok])
      show "\<forall>c\<in>block_of (m_data ?v). block_at (heap s1) c = block_at (heap s) c"
        using blk h1(1) by auto
    qed (simp_all add: th h1)
    have fresh: "?b \<notin> block_of (m_data (vecs s1 ! this))"
      using blk h1(2) by auto
    have nd: "m_buffer ?nd = Ptr ?b 0" by simp
    have ln: "length xs \<le> length (replicate n Raw :: 'a slot list)" using cap big by simp
    note m = MoveOrCopy_spec [OF ok1 nd b1 ln fresh, of T]
    show ?thesis
    proof (cases "MoveOrCopy T this ?nd s1")
      case (Inl w)
      obtain e s3 where w: "w = (e, s3)" by (cases w)
      from m Inl w have s3: "elem_faults s1 \<noteq> []" "\<not> nothrow_move_constructible T"
          "copy_constructible T \<Longrightarrow> e = Thrown CopyCtor \<and> vecs s3 = vecs s1 \<and>
             alloc_faults s3 = alloc_faults s1 \<and> length (heap s3) = length (heap s1) \<and>
             (\<forall>c. c \<noteq> ?b \<longrightarrow> block_at (heap s3) c = block_at (heap s1) c) \<and>
             block_at (heap s3) ?b \<noteq> None"
          "\<not> copy_constructible T \<Longrightarrow> e = Thrown MoveCtor"
        by (simp_all split: if_splits)
      have nq: "\<not> quiet s" using s3(1) h1(3) by (auto simp: quiet_def)
      have s3f: "True \<in> set (take (length xs) (elem_faults s))"
        using m Inl w h1(3) by simp
      have exc: "is_exception e" "e \<noteq> Thrown ValueInit"
        using s3(3,4) by (cases "copy_constructible T"; auto)+
      have r: "Reserve T n this s =
          (case RawMemory_dtor ?nd s3 of Inl x \<Rightarrow> Inl x | Inr (u, s4) \<Rightarrow> Inl (e, s4))"
        using rs a1 Inl w exc(1)
        by (simp add: bind_def unwind_def try_catch_def raise_def split: sum.splits)
      show ?thesis
      proof (cases "copy_constructible T")
        case True
        from s3(3) [OF True] obtain blk where blk: "block_at (heap s3) ?b = Some blk" by auto
        have d: "RawMemory_dtor ?nd s3 = Inr ((), s3\<lparr>heap := (heap s3)[?b := None]\<rparr>)"
          using blk by (simp add: RawMemory_dtor_def)
        show ?thesis
          using r d nq exc s3(3) [OF True] h1(1,2) s3f s3(2) big
          by auto
      next
        case False
        have "RawMemory_dtor ?nd s3 = Inl (Undefined, s3) \<or>
              RawMemory_dtor ?nd s3 = Inr ((), s3\<lparr>heap := (heap s3)[?b := None]\<rparr>)"
          by (simp add: RawMemory_dtor_def)
        then show ?thesis
          using r nq exc s3(2) False s3f big by auto
      qed
    next
      case (Inr w)
      obtain od s3 where w: "w = (od, s3)" by (cases w)
      from m Inr w h1(2) have s3: "od = m_data ?v"
          "vecs s3 = (vecs s)[this := ?v\<lparr>m_data := ?nd\<rparr>]"
          "alloc_faults s3 = alloc_faults s1" "length (heap s3) = length (heap s1)"
          "block_at (heap s3) ?b = Some (overwrite (replicate n Raw) 0 (map Obj xs))"
          "\<forall>c. c \<noteq> ?b \<and> c \<notin> block_of (m_data ?v) \<longrightarrow> block_at (heap s3) c = block_at (heap s1) c"
          "\<forall>a \<in> block_of (m_data ?v). block_at (heap s3) a \<noteq> None"
          "elem_faults s1 = [] \<longrightarrow> elem_faults s3 = []"
        by simp_all
      have s3e: "elem_faults s3 = (if nothrow_move_constructible T then elem_faults s
                                   else drop (length xs) (elem_faults s))"
        using m Inr w h1(3) by simp
      define s4 where "s4 = (case m_buffer (m_data ?v) of Null \<Rightarrow> s3
                               | Ptr a i \<Rightarrow> s3\<lparr>heap := (heap s3)[a := None]\<rparr>)"
      have d: "RawMemory_dtor od s3 = Inr ((), s4)"
      proof (cases "m_buffer (m_data ?v)")
        case Null
        then show ?thesis by (simp add: RawMemory_dtor_def s3(1) s4_def)
      next
        case (Ptr a i)
        from vector_okD(5) [OF ok Ptr] have "i = 0" by simp
        moreover from s3(7) Ptr obtain blk where "block_at (heap s3) a = Some blk"
          by (auto simp: block_of_def)
        ultimately show ?thesis using Ptr by (simp add: RawMemory_dtor_def s3(1) s4_def)
      qed
      have s4: "vecs s4 = vecs s3" "alloc_faults s4 = alloc_faults s3" "elem_faults s4 = elem_faults s3"
          "length (heap s4) = length (heap s3)"
          "\<forall>c. c \<notin> block_of (m_data ?v) \<longrightarrow> block_at (heap s4) c = block_at (heap s3) c"
        by (auto simp: s4_def block_of_def split: ptr.splits)
      have res: "Reserve T n this s = Inr ((), s4)"
        using rs a1 Inr w d by (simp add: bind_def unwind_def try_catch_def)
      have bb: "block_at (heap s4) ?b = Some (overwrite (replicate n Raw) 0 (map Obj xs))"
        using s4(5) s3(5) blk by auto
      have ok': "vector_ok s4 this xs"
        using th s4(1) s3(2) bb cap big sz take_overwrite_fresh [of "map Obj xs" n]
        by (simp add: vector_ok_def)
      have fr: "\<forall>c < ?b. c \<notin> block_of (m_data ?v) \<longrightarrow> block_at (heap s4) c = block_at (heap s) c"
        using s4(5) s3(6) h1(1) by simp
      have q: "quiet s \<longrightarrow> quiet s4"
        using h1 s3 s4 by (simp add: quiet_def)
      show ?thesis
        using res ok' fr q th s4(1,3,4) s3(2,4) h1(1) s3e big
        by simp
    qed
  qed
qed

lemma Resize_grow_spec:
  assumes ok: "vector_ok s this xs" and grow: "length xs \<le> n"
    and nw: "n \<le> m_capacity (m_data (vecs s ! this)) \<or> no_wrap T n"
  shows "case Resize T n this s of
      Inr (u, s') \<Rightarrow>
        vector_ok s' this (xs @ replicate (n - length xs) (value_init T)) \<and> (quiet s \<longrightarrow> quiet s')
    | Inl (e, s') \<Rightarrow>
        \<not> quiet s \<and>
        (e = Thrown ValueInit \<or> nothrow_move_constructible T \<or> copy_constructible T \<longrightarrow>
           vector_ok s' this xs)"
proof -
  let ?k = "length xs"
  from vector_okD [OF ok] have th: "this < length (vecs s)" and sz: "m_size (vecs s ! this) = ?k"
    by auto
  have rz: "Resize T n this s =
      bind (Reserve T n this) (\<lambda>_.
      bind (get_vec this) (\<lambda>v1.
      bind (ptr_add (m_buffer (m_data v1)) (m_size v1)) (\<lambda>p.
      bind (uninitialized_value_construct_n T p (n - m_size v1)) (\<lambda>_.
      bind (get_vec this) (\<lambda>v2. put_vec this (v2\<lparr>m_size := n\<rparr>)))))) s"
    using th sz grow by (simp add: Resize_def bind_def split: sum.splits)
  note r = Reserve_spec [OF ok nw]
  show ?thesis
  proof (cases "Reserve T n this s")
    case (Inl w)
    obtain e s1 where w: "w = (e, s1)" by (cases w)
    from r Inl w have s1: "\<not> quiet s" "e \<noteq> Thrown ValueInit"
      "nothrow_move_constructible T \<or> copy_constructible T \<Longrightarrow>
         vecs s1 = vecs s \<and> (\<forall>c < length (heap s). block_at (heap s1) c = block_at (heap s) c)"
      by simp_all
    have res: "Resize T n this s = Inl (e, s1)"
      using rz Inl w by (simp add: bind_def)
    have "vector_ok s1 this xs" if "nothrow_move_constructible T \<or> copy_constructible T"
    proof (rule vector_ok_frame [OF ok])
      show "\<forall>c\<in>block_of (m_data (vecs s ! this)). block_at (heap s1) c = block_at (heap s) c"
        using s1(3) [OF that] block_of_less [OF ok] by blast
    qed (simp_all add: s1(3) [OF that] th)
    then show ?thesis using res s1(1,2) by auto
  next
    case (Inr w)
    obtain u s1 where w: "w = (u, s1)" by (cases w)
    from r Inr w have s1: "vector_ok s1 this xs" "n \<le> m_capacity (m_data (vecs s1 ! this))"
      "quiet s \<longrightarrow> quiet s1"
      by simp_all
    let ?v1 = "vecs s1 ! this"
    from vector_okD [OF s1(1)] have th1: "this < length (vecs s1)" and sz1: "m_size ?v1 = ?k"
      by auto
    show ?thesis
    proof (cases "m_buffer (m_data ?v1)")
      case Null
      with vector_okD(4) [OF s1(1)] s1(2) have z: "n = 0" "xs = []" by auto
      have res: "Resize T n this s = Inr ((), s1\<lparr>vecs := (vecs s1)[this := ?v1\<lparr>m_size := 0\<rparr>]\<rparr>)"
        using rz Inr w th1 sz1 Null z by (simp add: bind_def return_def put_vec_def)
      have "vector_ok (s1\<lparr>vecs := (vecs s1)[this := ?v1\<lparr>m_size := 0\<rparr>]\<rparr>) this []"
        using s1(1) z Null th1 by (simp add: vector_ok_def)
      then show ?thesis using res z s1(3) by (simp add: quiet_def)
    next
      case (Ptr a i)
      with vector_okD(5) [OF s1(1)] obtain db where
        i: "i = 0" and db: "block_at (heap s1) a = Some db" "length db = m_capacity (m_data ?v1)"
          "take ?k db = map Obj xs"
        by auto
      have al: "a < length (heap s1)" using db(1) by (rule block_at_Some_less)
      have bound: "?k + 0 + (n - ?k) \<le> length db" using grow s1(2) db(2) by simp
      have pre: "\<forall>m. ?k \<le> m \<and> m < ?k + 0 \<longrightarrow> db ! m \<noteq> Raw" by auto
      note vc = uninitialized_value_construct_from_exec [OF db(1) bound pre, of T]
      have rz2: "Resize T n this s =
        bind (uninitialized_value_construct_from T (Ptr a ?k) 0 (n - ?k)) (\<lambda>_.
        bind (get_vec this) (\<lambda>v2. put_vec this (v2\<lparr>m_size := n\<rparr>))) s1"
        using rz Inr w th1 sz1 Ptr i
        by (simp add: bind_def return_def uninitialized_value_construct_n_def)
      show ?thesis
      proof (cases "True \<in> set (take (n - ?k) (elem_faults s1))")
        case True
        let ?m = "length (takeWhile Not (elem_faults s1))"
        let ?s2 = "s1\<lparr>heap := (heap s1)[a := Some (overwrite db ?k (replicate (0 + ?m) Raw))],
                   elem_faults := tl (dropWhile Not (elem_faults s1))\<rparr>"
        have res: "Resize T n this s = Inl (Thrown ValueInit, ?s2)"
          using rz2 vc True by (simp add: bind_def)
        have m: "?k + ?m \<le> length db"
          using first_fault_less [OF True] bound by simp
        have ok2: "vector_ok ?s2 this xs"
          using s1(1) Ptr i al db m by (simp add: vector_ok_def)
        have "elem_faults s1 \<noteq> []" using True by auto
        then have "\<not> quiet s" using s1(3) by (auto simp: quiet_def)
        then show ?thesis using res ok2 by simp
      next
        case False
        let ?ys = "replicate (n - ?k) (Obj (value_init T))"
        let ?s2 = "s1\<lparr>heap := (heap s1)[a := Some (overwrite db (?k + 0) ?ys)],
                   elem_faults := drop (n - ?k) (elem_faults s1)\<rparr>"
        let ?s3 = "?s2\<lparr>vecs := (vecs s1)[this := ?v1\<lparr>m_size := n\<rparr>]\<rparr>"
        have res: "Resize T n this s = Inr ((), ?s3)"
          using rz2 vc False th1 by (simp add: bind_def put_vec_def)
        have tk: "take n (overwrite db ?k ?ys) = map Obj xs @ ?ys"
          using take_overwrite_end [of ?k ?ys db] bound grow db(3) by simp
        have ok3: "vector_ok ?s3 this (xs @ replicate (n - ?k) (value_init T))"
          using th1 Ptr i al db(2) s1(2) grow tk by (simp add: vector_ok_def)
        have "quiet s \<longrightarrow> quiet ?s3" using s1(3) by (simp add: quiet_def)
        then show ?thesis using res ok3 by simp
      qed
    qed
  qed
qed

subsection \<open>Copy assignment\<close>

lemma RawMemory_ctor_zero: "RawMemory_ctor T 0 s = Inr (\<lparr>m_buffer = Null, m_capacity = 0\<rparr>, s)"
  by (simp add: RawMemory_ctor_def Allocate_def bind_def return_def)

lemma unwind_return [simp]: "unwind (return r) cleanup = return r"
  by (rule ext) (simp add: unwind_def try_catch_def return_def)

lemma Vector_copy_ctor_spec:
  assumes oko: "vector_ok s other xs" and tmp: "tmp < length (vecs s)" "tmp \<noteq> other"
    and cc: "copy_constructible T" and nw: "xs = [] \<or> no_wrap T (length xs)"
  shows "case Vector_copy_ctor T tmp other s of
      Inr (u, s') \<Rightarrow>
        vector_ok s' tmp xs \<and>
        length (vecs s') = length (vecs s) \<and> (\<forall>t. t \<noteq> tmp \<longrightarrow> vecs s' ! t = vecs s ! t) \<and>
        length (heap s) \<le> length (heap s') \<and>
        (\<forall>c < length (heap s). block_at (heap s') c = block_at (heap s) c) \<and>
        m_data (vecs s' ! tmp) =
          (if xs = [] then \<lparr>m_buffer = Null, m_capacity = 0\<rparr>
           else \<lparr>m_buffer = Ptr (length (heap s)) 0, m_capacity = length xs\<rparr>) \<and>
        (quiet s \<longrightarrow> quiet s') \<and>
        elem_faults s' = drop (length xs) (elem_faults s) \<and>
        True \<notin> set (take (length xs) (elem_faults s)) \<and> (xs = [] \<or> \<not> alloc_fails s)
    | Inl (e, s') \<Rightarrow>
        \<not> quiet s \<and> is_exception e \<and>
        (e = BadAlloc \<and> alloc_fails s \<or>
         e = Thrown CopyCtor \<and> True \<in> set (take (length xs) (elem_faults s))) \<and>
        length (vecs s') = length (vecs s) \<and> (\<forall>t. t \<noteq> tmp \<longrightarrow> vecs s' ! t = vecs s ! t) \<and>
        length (heap s) \<le> length (heap s') \<and>
        (\<forall>c < length (heap s). block_at (heap s') c = block_at (heap s) c)"
proof -
  let ?ov = "vecs s ! other"
  let ?n = "length xs"
  from vector_okD [OF oko] have oth: "other < length (vecs s)" and sz: "m_size ?ov = ?n" by auto
  show ?thesis
  proof (cases "xs = []")
    case True
    then have "Vector_copy_ctor T tmp other s =
        Inr ((), s\<lparr>vecs := (vecs s)[tmp := \<lparr>m_data = \<lparr>m_buffer = Null, m_capacity = 0\<rparr>, m_size = 0\<rparr>]\<rparr>)"
      using oth sz by (simp add: Vector_copy_ctor_def bind_def RawMemory_ctor_zero put_vec_def return_def)
    then show ?thesis
      using True tmp by (simp add: vector_ok_def quiet_def)
  next
    case False
    from False nw have nwn: "no_wrap T ?n" by simp
    from False have n0: "?n \<noteq> 0" by simp
    with vector_okD(3,4) [OF oko] obtain a i where buf: "m_buffer (m_data ?ov) = Ptr a i"
      by (cases "m_buffer (m_data ?ov)") auto
    with vector_okD(5) [OF oko] obtain sa where
      i: "i = 0" and sa: "block_at (heap s) a = Some sa" "length sa = m_capacity (m_data ?ov)"
        "take ?n sa = map Obj xs"
      by auto
    have cap: "?n \<le> length sa" using vector_okD(3) [OF oko] sa(2) by simp
    have al: "a < length (heap s)" using sa(1) by (rule block_at_Some_less)
    let ?b = "length (heap s)"
    let ?d = "\<lparr>m_buffer = Ptr ?b 0, m_capacity = ?n\<rparr>"
    have cd: "Vector_copy_ctor T tmp other s =
      bind (RawMemory_ctor T ?n) (\<lambda>d.
      bind (put_vec tmp \<lparr>m_data = d, m_size = ?n\<rparr>) (\<lambda>_.
        unwind (uninitialized_copy_n T (Ptr a 0) ?n (m_buffer d)) (RawMemory_dtor d))) s"
      using oth sz buf i by (simp add: Vector_copy_ctor_def bind_def)
    show ?thesis
    proof (cases "\<exists>fs. alloc_faults s = True # fs")
      case True
      then show ?thesis
        using cd RawMemory_ctor_exec [OF n0 nwn, of s]
        by (auto simp: bind_def quiet_def alloc_fails_def)
    next
      case False
      then have naf: "\<not> alloc_fails s"
        by (cases "alloc_faults s") (auto simp: alloc_fails_def)
      define s1 where "s1 = s\<lparr>heap := heap s @ [Some (replicate ?n Raw)], alloc_faults := tl (alloc_faults s)\<rparr>"
      define s2 where "s2 = s1\<lparr>vecs := (vecs s)[tmp := \<lparr>m_data = ?d, m_size = ?n\<rparr>]\<rparr>"
      have a0: "RawMemory_ctor T ?n s = Inr (?d, s1)"
        using False RawMemory_ctor_exec [OF n0 nwn, of s]
        by (cases "alloc_faults s") (auto simp: s1_def)
      have a1: "bind (RawMemory_ctor T ?n) (\<lambda>d. bind (put_vec tmp \<lparr>m_data = d, m_size = ?n\<rparr>) (\<lambda>_. f d)) s
                = f ?d s2" for f :: "RawMemory \<Rightarrow> (unit, 'a) run"
        using a0 by (simp add: s2_def s1_def bind_def put_vec_def)
      have h2: "heap s2 = heap s @ [Some (replicate ?n Raw)]"
        "vecs s2 = (vecs s)[tmp := \<lparr>m_data = ?d, m_size = ?n\<rparr>]"
        "elem_faults s2 = elem_faults s" "alloc_faults s = [] \<longrightarrow> alloc_faults s2 = []"
        by (simp_all add: s2_def s1_def)
      have b2: "block_at (heap s2) ?b = Some (replicate ?n Raw)" by (simp add: h2)
      have a2: "block_at (heap s2) a = Some sa" using sa(1) al by (simp add: h2)
      have live: "\<forall>m. 0 + 0 \<le> m \<and> m < 0 + 0 + ?n \<longrightarrow> sa ! m \<noteq> Raw"
        using prefix_live [OF sa(3)] by auto
      have cp: "uninitialized_copy_from T (Ptr a 0) (Ptr ?b 0) 0 ?n s2 =
         (if True \<in> set (take ?n (elem_faults s2))
          then Inl (Thrown CopyCtor,
             s2\<lparr>heap := (heap s2)[?b := Some (overwrite (replicate ?n Raw) 0
                    (replicate (0 + length (takeWhile Not (elem_faults s2))) Raw))],
               elem_faults := tl (dropWhile Not (elem_faults s2))\<rparr>)
          else Inr ((), s2\<lparr>heap := (heap s2)[?b := Some (overwrite (replicate ?n Raw) (0 + 0) (take ?n (drop (0 + 0) sa)))],
                     elem_faults := drop ?n (elem_faults s2)\<rparr>))"
        using a2 b2 al cap live cc
        by (intro uninitialized_copy_from_exec) auto
      show ?thesis
      proof (cases "True \<in> set (take ?n (elem_faults s2))")
        case True
        let ?s3 = "s2\<lparr>heap := (heap s2)[?b := Some (overwrite (replicate ?n Raw) 0
                    (replicate (0 + length (takeWhile Not (elem_faults s2))) Raw))],
               elem_faults := tl (dropWhile Not (elem_faults s2))\<rparr>"
        have d: "RawMemory_dtor ?d ?s3 = Inr ((), ?s3\<lparr>heap := (heap ?s3)[?b := None]\<rparr>)"
          by (simp add: RawMemory_dtor_def h2)
        have res: "Vector_copy_ctor T tmp other s = Inl (Thrown CopyCtor, ?s3\<lparr>heap := (heap ?s3)[?b := None]\<rparr>)"
          unfolding cd a1 using cp True d
          by (simp add: uninitialized_copy_n_def unwind_def try_catch_def bind_def raise_def)
        have "elem_faults s \<noteq> []" using True h2(3) by auto
        then show ?thesis
          using res h2 True by (simp add: quiet_def)
      next
        case no: False
        let ?s3 = "s2\<lparr>heap := (heap s2)[?b := Some (overwrite (replicate ?n Raw) 0 (map Obj xs))],
                     elem_faults := drop ?n (elem_faults s2)\<rparr>"
        have res: "Vector_copy_ctor T tmp other s = Inr ((), ?s3)"
          unfolding cd a1 using cp no sa(3)
          by (simp add: uninitialized_copy_n_def unwind_def try_catch_def)
        have ok3: "vector_ok ?s3 tmp xs"
          using tmp(1) h2 take_overwrite_fresh [of "map Obj xs" ?n]
          by (simp add: vector_ok_def)
        have q: "quiet s \<longrightarrow> quiet ?s3" using h2 by (simp add: quiet_def)
        show ?thesis
          using res ok3 q h2 tmp n0 no naf by simp
      qed
    qed
  qed
qed

lemma Vector_Swap_exec:
  assumes "a < length (vecs s)" "b < length (vecs s)"
  shows "Vector_Swap a b s = Inr ((), s\<lparr>vecs := (vecs s)[b := vecs s ! a, a := vecs s ! b]\<rparr>)"
proof (cases "a = b")
  case True
  then show ?thesis
    using assms by (simp add: Vector_Swap_def bind_def put_vec_def)
next
  case False
  have 1: "(vecs s ! b)\<lparr>m_data := m_data (vecs s ! a), m_size := m_size (vecs s ! a)\<rparr> = vecs s ! a"
    by simp
  have 2: "(vecs s ! a)\<lparr>m_data := m_data (vecs s ! b), m_size := m_size (vecs s ! b)\<rparr> = vecs s ! b"
    by simp
  show ?thesis
    using assms False 1 2
    by (simp add: Vector_Swap_def bind_def put_vec_def list_update_swap [of a b])
qed

lemma Vector_dtor_spec:
  assumes ok: "vector_ok s this ys"
  shows "Vector_dtor this s =
     Inr ((), (case m_buffer (m_data (vecs s ! this)) of
                 Null \<Rightarrow> s
               | Ptr a i \<Rightarrow> s\<lparr>heap := (heap s)[a := None]\<rparr>))"
proof (cases "m_buffer (m_data (vecs s ! this))")
  case Null
  with vector_okD [OF ok] have "ys = []" "this < length (vecs s)" "m_size (vecs s ! this) = 0" by auto
  then show ?thesis
    using Null by (simp add: Vector_dtor_def bind_def RawMemory_dtor_def)
next
  case (Ptr a i)
  with vector_okD [OF ok] obtain sb where
    i: "i = 0" and th: "this < length (vecs s)" and sz: "m_size (vecs s ! this) = length ys"
    and sb: "block_at (heap s) a = Some sb" "length sb = m_capacity (m_data (vecs s ! this))"
           "take (length ys) sb = map Obj ys"
    and cap: "length ys \<le> m_capacity (m_data (vecs s ! this))"
    by auto
  have al: "a < length (heap s)" using sb(1) by (rule block_at_Some_less)
  have live: "\<forall>j. 0 \<le> j \<and> j < 0 + length ys \<longrightarrow> sb ! j \<noteq> Raw"
    using prefix_live [OF sb(3)] by auto
  have d: "destroy_n (Ptr a 0) (length ys) s =
      Inr ((), s\<lparr>heap := (heap s)[a := Some (overwrite sb 0 (replicate (length ys) Raw))]\<rparr>)"
    using sb(1) cap sb(2) live by (intro destroy_n_exec) auto
  show ?thesis
    using th sz Ptr i d al by (simp add: Vector_dtor_def bind_def RawMemory_dtor_def)
qed

lemma butlast_restore:
  assumes "length ws = Suc (length vs)" "\<forall>t. t \<noteq> length vs \<longrightarrow> ws ! t = (vs @ [d]) ! t"
  shows "butlast ws = vs"
proof (rule nth_equalityI)
  show "length (butlast ws) = length vs" using assms(1) by simp
next
  fix i assume "i < length (butlast ws)"
  then have i: "i < length vs" using assms(1) by simp
  then have "butlast ws ! i = ws ! i" using assms(1) by (simp add: nth_butlast)
  also have "\<dots> = (vs @ [d]) ! i" using assms(2) i by simp
  also have "\<dots> = vs ! i" using i by (simp add: nth_append)
  finally show "butlast ws ! i = vs ! i" .
qed

lemma copy_assign_big_spec:
  assumes ne: "a \<noteq> b" and oka: "vector_ok s a xs" and okb: "vector_ok s b ys"
    and cc: "copy_constructible T"
    and big: "m_capacity (m_data (vecs s ! b)) < length xs"
    and nw: "no_wrap T (length xs)"
  shows "case Vector_copy_assign T b a s of
      Inr (u, s') \<Rightarrow>
        vecs s' = (vecs s)[b := \<lparr>m_data = \<lparr>m_buffer = Ptr (length (heap s)) 0, m_capacity = length xs\<rparr>,
                                 m_size = length xs\<rparr>] \<and>
        block_at (heap s') (length (heap s)) = Some (map Obj xs) \<and>
        length (heap s) < length (heap s') \<and>
        (\<forall>c < length (heap s). c \<notin> block_of (m_data (vecs s ! b))
            \<longrightarrow> block_at (heap s') c = block_at (heap s) c) \<and>
        (quiet s \<longrightarrow> quiet s') \<and>
        (\<forall>c \<in> block_of (m_data (vecs s ! b)). block_at (heap s') c = None) \<and>
        elem_faults s' = drop (length xs) (elem_faults s) \<and>
        True \<notin> set (take (length xs) (elem_faults s)) \<and> \<not> alloc_fails s
    | Inl (e, s') \<Rightarrow>
        \<not> quiet s \<and> is_exception e \<and> vecs s' = vecs s \<and>
        (e = BadAlloc \<and> alloc_fails s \<or>
         e = Thrown CopyCtor \<and> True \<in> set (take (length xs) (elem_faults s))) \<and>
        (\<forall>c < length (heap s). block_at (heap s') c = block_at (heap s) c)"
proof -
  let ?L = "length (vecs s)"
  let ?dv = "\<lparr>m_data = RawMemory_default, m_size = 0\<rparr>"
  define s0 where "s0 = s\<lparr>vecs := vecs s @ [?dv]\<rparr>"
  from vector_okD [OF oka] have ath: "a < ?L" and asz: "m_size (vecs s ! a) = length xs" by auto
  from vector_okD [OF okb] have bth: "b < ?L" by auto
  have xs: "xs \<noteq> []" using big by auto
  have ca: "Vector_copy_assign T b a s =
      bind (unwind (Vector_copy_ctor T ?L a) pop_frame) (\<lambda>_.
      bind (Vector_Swap b ?L) (\<lambda>_.
      bind (Vector_dtor ?L) (\<lambda>_. pop_frame))) s0"
    using ne ath bth asz big
    by (simp add: Vector_copy_assign_def bind_def push_frame_def s0_def)
  have h0: "heap s0 = heap s" "vecs s0 = vecs s @ [?dv]" "elem_faults s0 = elem_faults s"
    "alloc_faults s0 = alloc_faults s"
    by (simp_all add: s0_def)
  have q0: "quiet s0 = quiet s" by (simp add: quiet_def h0)
  have oka0: "vector_ok s0 a xs"
  proof (rule vector_ok_frame [OF oka])
    show "vecs s0 ! a = vecs s ! a" using ath by (simp add: h0 nth_append)
    show "a < length (vecs s0)" using ath by (simp add: h0)
  qed (simp add: h0)
  have okb0: "vector_ok s0 b ys"
  proof (rule vector_ok_frame [OF okb])
    show "vecs s0 ! b = vecs s ! b" using bth by (simp add: h0 nth_append)
    show "b < length (vecs s0)" using bth by (simp add: h0)
  qed (simp add: h0)
  have tmp: "?L < length (vecs s0)" "?L \<noteq> a" using ath by (simp_all add: h0)
  note cs = Vector_copy_ctor_spec [OF oka0 tmp cc disjI2 [OF nw]]
  show ?thesis
  proof (cases "Vector_copy_ctor T ?L a s0")
    case (Inl w)
    obtain e s1 where w: "w = (e, s1)" by (cases w)
    from cs Inl w have s1: "\<not> quiet s0" "is_exception e" "length (vecs s1) = length (vecs s0)"
      "\<forall>t. t \<noteq> ?L \<longrightarrow> vecs s1 ! t = vecs s0 ! t"
      "\<forall>c < length (heap s0). block_at (heap s1) c = block_at (heap s0) c"
      "e = BadAlloc \<and> alloc_fails s0 \<or>
       e = Thrown CopyCtor \<and> True \<in> set (take (length xs) (elem_faults s0))"
      by simp_all
    have bl: "butlast (vecs s1) = vecs s"
      using s1(3,4) by (intro butlast_restore [of _ _ ?dv]) (simp_all add: h0)
    have res: "Vector_copy_assign T b a s = Inl (e, s1\<lparr>vecs := butlast (vecs s1)\<rparr>)"
      unfolding ca using Inl w s1(2)
      by (simp add: bind_def unwind_def try_catch_def pop_frame_def raise_def)
    show ?thesis
      using res s1(1,2,5,6) bl q0 h0 by (simp add: alloc_fails_def)
  next
    case (Inr w)
    obtain u s1 where w: "w = (u, s1)" by (cases w)
    let ?nv = "\<lparr>m_data = \<lparr>m_buffer = Ptr (length (heap s)) 0, m_capacity = length xs\<rparr>, m_size = length xs\<rparr>"
    from cs Inr w xs have s1: "vector_ok s1 ?L xs" "length (vecs s1) = length (vecs s0)"
      "\<forall>t. t \<noteq> ?L \<longrightarrow> vecs s1 ! t = vecs s0 ! t"
      "length (heap s0) \<le> length (heap s1)"
      "\<forall>c < length (heap s0). block_at (heap s1) c = block_at (heap s0) c"
      "m_data (vecs s1 ! ?L) = \<lparr>m_buffer = Ptr (length (heap s0)) 0, m_capacity = length xs\<rparr>"
      "quiet s0 \<longrightarrow> quiet s1"
      "elem_faults s1 = drop (length xs) (elem_faults s0)"
      "True \<notin> set (take (length xs) (elem_faults s0))" "\<not> alloc_fails s0"
      by simp_all
    have nv: "vecs s1 ! ?L = ?nv"
      using s1(6) vector_okD(2) [OF s1(1)] h0(1) by (cases "vecs s1 ! ?L") simp
    have vb: "vecs s1 ! b = vecs s ! b"
      using s1(3) bth by (simp add: h0 nth_append)
    let ?s2 = "s1\<lparr>vecs := (vecs s1)[?L := vecs s1 ! b, b := vecs s1 ! ?L]\<rparr>"
    have sw: "Vector_Swap b ?L s1 = Inr ((), ?s2)"
      using bth s1(2) by (intro Vector_Swap_exec) (simp_all add: h0)
    have v2: "vecs ?s2 ! ?L = vecs s ! b" "?L < length (vecs ?s2)"
      using bth s1(2) vb by (simp_all add: h0)
    have ok2: "vector_ok ?s2 ?L ys"
      unfolding vector_ok_def
      using okb v2 s1(5) block_of_less [OF okb] h0(1)
      by (auto simp: vector_ok_def block_of_def split: ptr.splits option.splits)
    define s3 where "s3 = (case m_buffer (m_data (vecs s ! b)) of
                 Null \<Rightarrow> ?s2 | Ptr c i \<Rightarrow> ?s2\<lparr>heap := (heap ?s2)[c := None]\<rparr>)"
    have dt: "Vector_dtor ?L ?s2 = Inr ((), s3)"
      using Vector_dtor_spec [OF ok2] v2(1) by (simp add: s3_def)
    have s3: "vecs s3 = vecs ?s2" "elem_faults s3 = elem_faults s1" "alloc_faults s3 = alloc_faults s1"
      "length (heap s3) = length (heap s1)"
      "\<forall>c. c \<notin> block_of (m_data (vecs s ! b)) \<longrightarrow> block_at (heap s3) c = block_at (heap s1) c"
      by (auto simp: s3_def block_of_def split: ptr.splits)
    have res: "Vector_copy_assign T b a s = Inr ((), s3\<lparr>vecs := butlast (vecs s3)\<rparr>)"
      unfolding ca using Inr w sw dt
      by (simp add: bind_def unwind_def try_catch_def pop_frame_def)
    have bl: "butlast (vecs s3) = (vecs s)[b := ?nv]"
    proof (rule nth_equalityI)
      show "length (butlast (vecs s3)) = length ((vecs s)[b := ?nv])"
        using s3(1) s1(2) by (simp add: h0)
    next
      fix i assume "i < length (butlast (vecs s3))"
      then have i: "i < ?L" using s3(1) s1(2) by (simp add: h0)
      then have "butlast (vecs s3) ! i = vecs ?s2 ! i"
        using s3(1) s1(2) by (simp add: nth_butlast h0)
      also have "\<dots> = (vecs s)[b := ?nv] ! i"
        using i bth s1(2,3) nv by (simp add: h0 nth_list_update nth_append)
      finally show "butlast (vecs s3) ! i = (vecs s)[b := ?nv] ! i" .
    qed
    have nb: "length (heap s) \<notin> block_of (m_data (vecs s ! b))"
      using block_of_less [OF okb] by auto
    from vector_okD(5) [OF s1(1), of "length (heap s)" 0] s1(6) h0(1)
    obtain blk where blk: "block_at (heap s1) (length (heap s)) = Some blk"
      "length blk = length xs" "take (length xs) blk = map Obj xs"
      by auto
    then have "blk = map Obj xs" by simp
    with blk(1) nb s3(5) have nblk: "block_at (heap s3) (length (heap s)) = Some (map Obj xs)"
      by simp
    have len: "length (heap s) < length (heap s3)"
      using block_at_Some_less [OF blk(1)] s3(4) by simp
    have old: "\<forall>c \<in> block_of (m_data (vecs s ! b)). block_at (heap s3) c = None"
      by (auto simp: s3_def block_of_def block_at_def split: ptr.splits)
    have af: "\<not> alloc_fails s" using s1(10) h0 by (simp add: alloc_fails_def)
    show ?thesis
      using res bl nblk len s3(2,3,5) s1(5,7,8,9) q0 h0 old af
      by (simp add: quiet_def)
  qed
qed

lemma take_first_overwrite:
  assumes "k \<le> length sa" "k \<le> length sb"
  shows "take k (overwrite sb 0 (take k sa)) = take k sa"
proof -
  have l: "length (take k sa) = k" using assms by simp
  have "take (0 + length (take k sa)) (overwrite sb 0 (take k sa)) = take 0 sb @ take k sa"
    by (rule take_overwrite_end) (simp add: l assms)
  then show ?thesis unfolding l by simp
qed

lemma take_two_overwrites:
  assumes "m \<le> n" "n \<le> length sa" "n \<le> length sb"
  shows "take n (overwrite (overwrite sb 0 (take m sa)) m (take (n - m) (drop m sa))) = take n sa"
proof -
  let ?X = "overwrite sb 0 (take m sa)"
  let ?Y = "take (n - m) (drop m sa)"
  have lx: "length ?X = length sb" using assms by simp
  have ly: "length ?Y = n - m" using assms by simp
  have "take (m + length ?Y) (overwrite ?X m ?Y) = take m ?X @ ?Y"
    using assms lx ly by (intro take_overwrite_end) simp
  moreover have "take m ?X = take m sa"
    using assms by (intro take_first_overwrite) simp_all
  moreover have "take m sa @ ?Y = take (m + (n - m)) sa"
    by (simp only: take_add)
  ultimately show ?thesis using assms ly by simp
qed

lemma take_overwrite_shrink:
  assumes "n \<le> m" "m \<le> length sb" "n \<le> length sa"
  shows "take n (overwrite (overwrite sb 0 (take n sa)) n (replicate (m - n) Raw)) = take n sa"
proof -
  let ?X = "overwrite sb 0 (take n sa)"
  have lx: "length ?X = length sb" using assms by simp
  have "take n (overwrite ?X n (replicate (m - n) Raw)) = take n ?X"
    using assms lx by (intro take_overwrite_le) simp_all
  also have "\<dots> = take n sa"
    using assms by (intro take_first_overwrite) simp_all
  finally show ?thesis .
qed

lemma overwrite_shrink_eq:
  assumes "n \<le> m" "m \<le> length sb" "n \<le> length sa"
  shows "overwrite (overwrite sb 0 (take n sa)) n (replicate (m - n) Raw)
           = take n sa @ replicate (m - n) Raw @ drop m sb"
  using assms by (simp add: overwrite_def min_absorb2)

lemma overwrite_extend_eq:
  assumes "m \<le> n" "n \<le> length sa" "n \<le> length sb"
  shows "overwrite (overwrite sb 0 (take m sa)) m (take (n - m) (drop m sa))
           = take n sa @ drop n sb"
proof -
  have "take n sa = take m sa @ take (n - m) (drop m sa)"
    using assms(1) take_add [of m "n - m" sa] by simp
  then show ?thesis using assms by (simp add: overwrite_def min_absorb2)
qed

lemma fault_in_longer_prefix:
  "True \<in> set (take k fs) \<Longrightarrow> k \<le> n \<Longrightarrow> True \<in> set (take n fs)"
  using set_take_subset_set_take [of k n fs] by blast

lemma fault_in_second_part:
  "True \<in> set (take (n - m) (drop m fs)) \<Longrightarrow> m \<le> n \<Longrightarrow> True \<in> set (take n fs)"
  using take_add [of m "n - m" fs] by simp

lemma no_fault_two_parts:
  "True \<notin> set (take m fs) \<Longrightarrow> True \<notin> set (take (n - m) (drop m fs)) \<Longrightarrow> m \<le> n \<Longrightarrow>
   True \<notin> set (take n fs)"
  using take_add [of m "n - m" fs] by simp

lemma copy_assign_fits_spec:
  assumes ne: "a \<noteq> b" and oka: "vector_ok s a xs" and okb: "vector_ok s b ys"
    and sep: "block_of (m_data (vecs s ! a)) \<inter> block_of (m_data (vecs s ! b)) = {}"
    and cc: "copy_constructible T"
    and fits: "length xs \<le> m_capacity (m_data (vecs s ! b))"
  shows "case Vector_copy_assign T b a s of
      Inr (u, s') \<Rightarrow>
        vector_ok s' b xs \<and>
        vecs s' = (vecs s)[b := (vecs s ! b)\<lparr>m_size := length xs\<rparr>] \<and>
        length (heap s') = length (heap s) \<and>
        (\<forall>c. c \<notin> block_of (m_data (vecs s ! b)) \<longrightarrow> block_at (heap s') c = block_at (heap s) c) \<and>
        (quiet s \<longrightarrow> quiet s') \<and>
        elem_faults s' = drop (length xs) (elem_faults s) \<and> alloc_faults s' = alloc_faults s \<and>
        True \<notin> set (take (length xs) (elem_faults s)) \<and>
        (\<forall>bb i blk. m_buffer (m_data (vecs s ! b)) = Ptr bb i \<and> block_at (heap s) bb = Some blk \<longrightarrow>
            block_at (heap s') bb =
              Some (map Obj xs @ replicate (length ys - length xs) Raw @
                    drop (max (length xs) (length ys)) blk))
    | Inl (e, s') \<Rightarrow>
        \<not> quiet s \<and> is_exception e \<and>
        (e = Thrown CopyAssign \<or> e = Thrown CopyCtor) \<and>
        (e = Thrown CopyAssign) = (True \<in> set (take (min (length xs) (length ys)) (elem_faults s))) \<and>
        True \<in> set (take (length xs) (elem_faults s))"
proof -
  let ?va = "vecs s ! a"
  let ?vb = "vecs s ! b"
  let ?n = "length xs"
  let ?m = "length ys"
  from vector_okD [OF oka] have ath: "a < length (vecs s)" and asz: "m_size ?va = ?n" by auto
  from vector_okD [OF okb] have bth: "b < length (vecs s)" and bsz: "m_size ?vb = ?m"
    and bcap: "?m \<le> m_capacity (m_data ?vb)" by auto
  have ca: "Vector_copy_assign T b a s =
      bind (if ?n \<le> ?m then
              bind (copy_n T (m_buffer (m_data ?va)) ?n (m_buffer (m_data ?vb))) (\<lambda>_.
              bind (ptr_add (m_buffer (m_data ?vb)) ?n) (\<lambda>p. destroy_n p (?m - ?n)))
            else
              bind (copy_n T (m_buffer (m_data ?va)) ?m (m_buffer (m_data ?vb))) (\<lambda>_.
              bind (ptr_add (m_buffer (m_data ?va)) ?m) (\<lambda>src.
              bind (ptr_add (m_buffer (m_data ?vb)) ?m) (\<lambda>dst.
                uninitialized_copy_n T src (?n - ?m) dst)))) (\<lambda>_.
      bind (get_vec b) (\<lambda>v1. put_vec b (v1\<lparr>m_size := ?n\<rparr>))) s"
    using ne ath bth asz bsz fits
    by (simp add: Vector_copy_assign_def bind_def)
  show ?thesis
  proof (cases "m_buffer (m_data ?vb)")
    case Null
    with vector_okD(4) [OF okb] fits have z: "?n = 0" "?m = 0" "xs = []" by auto
    have "Vector_copy_assign T b a s = Inr ((), s\<lparr>vecs := (vecs s)[b := ?vb\<lparr>m_size := 0\<rparr>]\<rparr>)"
      unfolding ca using z Null bth by (simp add: bind_def return_def put_vec_def)
    moreover have "vector_ok (s\<lparr>vecs := (vecs s)[b := ?vb\<lparr>m_size := 0\<rparr>]\<rparr>) b []"
      using okb Null bth by (simp add: vector_ok_def)
    ultimately show ?thesis using z Null by (simp add: quiet_def)
  next
    case (Ptr bb j)
    with vector_okD(5) [OF okb] obtain sb where
      j: "j = 0" and sb: "block_at (heap s) bb = Some sb" "length sb = m_capacity (m_data ?vb)"
        "take ?m sb = map Obj ys"
      by auto
    have bl: "bb < length (heap s)" using sb(1) by (rule block_at_Some_less)
    have blive: "\<And>k. k < ?m \<Longrightarrow> sb ! k \<noteq> Raw"
      using prefix_live [OF sb(3)] by auto
    have bo: "block_of (m_data ?vb) = {bb}" using Ptr by (simp add: block_of_def)
    show ?thesis
    proof (cases "m_buffer (m_data ?va)")
      case Null
      with vector_okD(4) [OF oka] have z: "?n = 0" "xs = []" by auto
      have d: "destroy_n (Ptr bb 0) ?m s =
          Inr ((), s\<lparr>heap := (heap s)[bb := Some (overwrite sb 0 (replicate ?m Raw))]\<rparr>)"
        using sb(1) bcap sb(2) blive by (intro destroy_n_exec) auto
      let ?s' = "s\<lparr>heap := (heap s)[bb := Some (overwrite sb 0 (replicate ?m Raw))],
                   vecs := (vecs s)[b := ?vb\<lparr>m_size := 0\<rparr>]\<rparr>"
      have "Vector_copy_assign T b a s = Inr ((), ?s')"
        unfolding ca using z Ptr j bth d by (simp add: bind_def return_def put_vec_def)
      moreover have "vector_ok ?s' b []"
        using Ptr j bth bl bcap sb(2) by (simp add: vector_ok_def)
      ultimately show ?thesis using z bo Ptr j sb(1) bl by (simp add: quiet_def overwrite_def)
    next
      case (Ptr aa i)
      with vector_okD(5) [OF oka] obtain sa where
        i: "i = 0" and sa: "block_at (heap s) aa = Some sa" "length sa = m_capacity (m_data ?va)"
          "take ?n sa = map Obj xs"
        by auto
      have acap: "?n \<le> length sa" using vector_okD(3) [OF oka] sa(2) by simp
      have alive: "\<And>k. k < ?n \<Longrightarrow> sa ! k \<noteq> Raw"
        using prefix_live [OF sa(3)] by auto
      have ab: "aa \<noteq> bb" using sep Ptr \<open>m_buffer (m_data ?vb) = Ptr bb j\<close>
        by (auto simp: block_of_def)
      let ?k = "min ?n ?m"
      have cf: "case copy_from T (Ptr aa 0) (Ptr bb 0) 0 ?k s of
         Inr (u, s') \<Rightarrow>
           s' = s\<lparr>heap := (heap s)[bb := Some (overwrite sb (0 + 0) (take ?k (drop (0 + 0) sa)))],
                  elem_faults := drop ?k (elem_faults s)\<rparr>
           \<and> True \<notin> set (take ?k (elem_faults s))
       | Inl (e, s') \<Rightarrow> e = Thrown CopyAssign \<and> True \<in> set (take ?k (elem_faults s))"
        using sa(1) sb(1) ab acap fits sb(2) bcap alive blive
        by (intro copy_from_exec) auto
      show ?thesis
      proof (cases "copy_from T (Ptr aa 0) (Ptr bb 0) 0 ?k s")
        case (Inl w)
        obtain e s1 where w: "w = (e, s1)" by (cases w)
        from cf Inl w have e: "e = Thrown CopyAssign" "True \<in> set (take ?k (elem_faults s))" by simp_all
        then have nq: "\<not> quiet s" by (auto simp: quiet_def)
        have "Vector_copy_assign T b a s = Inl (e, s1)"
          unfolding ca using Inl w Ptr i \<open>m_buffer (m_data ?vb) = Ptr bb j\<close> j
          by (auto simp: bind_def copy_n_def min_def)
        then show ?thesis using nq e fault_in_longer_prefix [OF e(2), of ?n] by simp
      next
        case (Inr w)
        obtain u s1 where w: "w = (u, s1)" by (cases w)
        let ?sb1 = "overwrite sb 0 (take ?k sa)"
        from cf Inr w have s1: "s1 = s\<lparr>heap := (heap s)[bb := Some ?sb1],
                  elem_faults := drop ?k (elem_faults s)\<rparr>"
          by simp
        from cf Inr w have nf: "True \<notin> set (take ?k (elem_faults s))" by simp
        have b1: "block_at (heap s1) bb = Some ?sb1" "block_at (heap s1) aa = Some sa"
          using s1 bl ab sa(1) by simp_all
        have l1: "length ?sb1 = length sb" using acap fits sb(2) bcap by simp
        show ?thesis
        proof (cases "?n \<le> ?m")
          case True
          then have k: "?k = ?n" by simp
          have d: "destroy_n (Ptr bb ?n) (?m - ?n) s1 =
              Inr ((), s1\<lparr>heap := (heap s1)[bb := Some (overwrite ?sb1 ?n (replicate (?m - ?n) Raw))]\<rparr>)"
          proof (rule destroy_n_exec [OF b1(1)])
            show "?n + (?m - ?n) \<le> length ?sb1" using True l1 bcap sb(2) by simp
            show "\<forall>j. ?n \<le> j \<and> j < ?n + (?m - ?n) \<longrightarrow> ?sb1 ! j \<noteq> Raw"
              using True blive acap fits sb(2) bcap k by (auto simp: nth_overwrite)
          qed
          let ?s' = "s1\<lparr>heap := (heap s1)[bb := Some (overwrite ?sb1 ?n (replicate (?m - ?n) Raw))],
                       vecs := (vecs s)[b := ?vb\<lparr>m_size := ?n\<rparr>]\<rparr>"
          have res: "Vector_copy_assign T b a s = Inr ((), ?s')"
            unfolding ca using True Inr w d Ptr i \<open>m_buffer (m_data ?vb) = Ptr bb j\<close> j bth s1 k
            by (simp add: bind_def copy_n_def put_vec_def return_def)
          have tk: "take ?n (overwrite ?sb1 ?n (replicate (?m - ?n) Raw)) = map Obj xs"
            using take_overwrite_shrink [OF True, of sb sa] bcap sb(2) acap sa(3) k by simp
          have ok': "vector_ok ?s' b xs"
            using \<open>m_buffer (m_data ?vb) = Ptr bb j\<close> j bth bl fits sb(2) tk s1 l1 True bcap
            by (simp add: vector_ok_def)
          have blkeq: "overwrite ?sb1 ?n (replicate (?m - ?n) Raw) =
                         map Obj xs @ replicate (?m - ?n) Raw @ drop (max ?n ?m) sb"
            using overwrite_shrink_eq [OF True _ acap, of sb] bcap sb(2) sa(3) k True
            by (simp add: max_absorb2)
          show ?thesis
            using res ok' s1 bo nf k blkeq \<open>m_buffer (m_data ?vb) = Ptr bb j\<close> sb(1) bl
            by (simp add: quiet_def)
        next
          case False
          then have k: "?k = ?m" and lt: "?m < ?n" by simp_all
          have live: "\<forall>q. ?m + 0 \<le> q \<and> q < ?m + 0 + (?n - ?m) \<longrightarrow> sa ! q \<noteq> Raw"
            using alive lt by auto
          have pre: "\<forall>q. ?m \<le> q \<and> q < ?m + 0 \<longrightarrow> ?sb1 ! q \<noteq> Raw" by auto
          have b1': "?m + 0 + (?n - ?m) \<le> length sa" "?m + 0 + (?n - ?m) \<le> length ?sb1"
            using lt acap fits sb(2) l1 by simp_all
          have cc': "copy_constructible T \<Longrightarrow>
            uninitialized_copy_from T (Ptr aa ?m) (Ptr bb ?m) 0 (?n - ?m) s1 =
             (if True \<in> set (take (?n - ?m) (elem_faults s1))
              then Inl (Thrown CopyCtor,
                 s1\<lparr>heap := (heap s1)[bb := Some (overwrite ?sb1 ?m
                        (replicate (0 + length (takeWhile Not (elem_faults s1))) Raw))],
                   elem_faults := tl (dropWhile Not (elem_faults s1))\<rparr>)
              else Inr ((), s1\<lparr>heap := (heap s1)[bb := Some (overwrite ?sb1 (?m + 0) (take (?n - ?m) (drop (?m + 0) sa)))],
                         elem_faults := drop (?n - ?m) (elem_faults s1)\<rparr>))"
            using b1 ab b1' live pre
            by (intro uninitialized_copy_from_exec) auto
          show ?thesis
          proof -
            note uc = cc' [OF cc]
            show ?thesis
            proof (cases "True \<in> set (take (?n - ?m) (elem_faults s1))")
              case t: True
              then have "elem_faults s1 \<noteq> []" by auto
              then have nq: "\<not> quiet s" using s1 by (auto simp: quiet_def)
              have "\<exists>s'. Vector_copy_assign T b a s = Inl (Thrown CopyCtor, s')"
                unfolding ca using False Inr w Ptr i \<open>m_buffer (m_data ?vb) = Ptr bb j\<close> j k uc t
                by (simp add: bind_def copy_n_def return_def uninitialized_copy_n_def min_def)
              moreover have "True \<in> set (take ?n (elem_faults s))"
                using t s1 k lt fault_in_second_part [of ?n ?m "elem_faults s"] by simp
              ultimately show ?thesis using nq nf k by auto
            next
              case f: False
              let ?blk = "overwrite ?sb1 ?m (take (?n - ?m) (drop ?m sa))"
              let ?s' = "s1\<lparr>heap := (heap s1)[bb := Some ?blk],
                       elem_faults := drop (?n - ?m) (elem_faults s1),
                       vecs := (vecs s)[b := ?vb\<lparr>m_size := ?n\<rparr>]\<rparr>"
              have res: "Vector_copy_assign T b a s = Inr ((), ?s')"
                unfolding ca using False Inr w Ptr i \<open>m_buffer (m_data ?vb) = Ptr bb j\<close> j k uc f bth s1
                by (simp add: bind_def copy_n_def return_def uninitialized_copy_n_def min_def put_vec_def)
              have tk: "take ?n ?blk = map Obj xs"
                using take_two_overwrites [of ?m ?n sa sb] lt acap fits sb(2) sa(3) k by simp
              have lb: "length ?blk = length sb"
                using lt acap fits sb(2) l1 by simp
              have ok': "vector_ok ?s' b xs"
                using \<open>m_buffer (m_data ?vb) = Ptr bb j\<close> j bth bl fits sb(2) tk s1 lb
                by (simp add: vector_ok_def)
              have blkeq: "?blk = map Obj xs @ drop ?n sb"
                using overwrite_extend_eq [of ?m ?n sa sb] lt acap fits sb(2) sa(3) k by simp
              have nfn: "True \<notin> set (take ?n (elem_faults s))"
                using nf f s1 k lt no_fault_two_parts [of ?m "elem_faults s" ?n] by simp
              have dd: "drop (?n - ?m) (drop ?k (elem_faults s)) = drop ?n (elem_faults s)"
                using k lt by simp
              show ?thesis
                using res ok' s1 bo nfn dd blkeq lt \<open>m_buffer (m_data ?vb) = Ptr bb j\<close> sb(1) bl
                by (simp add: quiet_def max_absorb1)
            qed
          qed
        qed
      qed
    qed
  qed
qed

lemma slots_other_block:
  assumes "c \<notin> block_of (m_data (vecs s ! b))"
  shows "slots (s\<lparr>heap := (heap s)[c := blk]\<rparr>) b = slots s b"
  using assms by (auto simp: slots_def block_of_def split: ptr.splits option.splits)

subsection \<open>\<^verbatim>\<open>EmplaceBack\<close> with an element of the vector itself as argument\<close>


subsection \<open>A construction that raises\<close>







subsection \<open>A failed value-initialisation in \<^verbatim>\<open>Resize\<close>, whatever the request\<close>


lemma raises_only_raise [simp]: "raises_only E (raise e) = (e \<in> E)"
  by (simp add: raises_only_def raise_def)


































section \<open>The claims\<close>

text \<open>
  C1 (growth that relocates by copying, a copy raises: the vector keeps its state, what
  was built is destroyed, the error reaches the caller).  \<^verbatim>\<open>Emplace\<close> breaks this.  The
  vector holds the one element 7 in a block of capacity 1; the element type is relocated
  by copying; \<^verbatim>\<open>Emplace(end(), 9)\<close> is called, the construction of the new element
  succeeds and the copy of the element 7 raises.  The handler in \<^verbatim>\<open>Emplace\<close> destroys the
  new element and releases the new block, but does not raise again: the call goes on,
  destroys the element 7, takes the released block as the vector's storage, releases
  the old block and returns normally with size 2.
\<close>

theorem Emplace_swallows_failed_copy:
  "Emplace T_copying (Ptr 0 1) (Args 9) 0
     \<lparr>heap = [Some [Obj 7]],
      vecs = [\<lparr>m_data = \<lparr>m_buffer = Ptr 0 0, m_capacity = 1\<rparr>, m_size = 1\<rparr>],
      elem_faults = [False, True], alloc_faults = []\<rparr>
   = Inr (Ptr 1 1,
     \<lparr>heap = [None, None],
      vecs = [\<lparr>m_data = \<lparr>m_buffer = Ptr 1 0, m_capacity = 2\<rparr>, m_size = 2\<rparr>],
      elem_faults = [], alloc_faults = []\<rparr>)"
  by code_simp

text \<open>
  C2 (\<^verbatim>\<open>Emplace\<close> on a full vector yields the old prefix, the new element, the old suffix,
  and returns a cursor to the new element).  The branch that relocates by copying breaks
  this.  The vector holds 1, 2 in a block of capacity 2 and \<^verbatim>\<open>Emplace(begin(), 9)\<close> is
  called; nothing raises.  The elements from \<open>pos\<close> on are copied to offset 0 of the new
  block, over the new element: the vector has size 3 with the slots 1, 2 and a raw
  slot, and the returned cursor points to the element 1.
\<close>

theorem Emplace_copy_branch_loses_element:
  "Emplace T_copying (Ptr 0 0) (Args 9) 0
     \<lparr>heap = [Some [Obj 1, Obj 2]],
      vecs = [\<lparr>m_data = \<lparr>m_buffer = Ptr 0 0, m_capacity = 2\<rparr>, m_size = 2\<rparr>],
      elem_faults = [], alloc_faults = []\<rparr>
   = Inr (Ptr 1 0,
     \<lparr>heap = [None, Some [Obj 1, Obj 2, Raw, Raw]],
      vecs = [\<lparr>m_data = \<lparr>m_buffer = Ptr 1 0, m_capacity = 4\<rparr>, m_size = 3\<rparr>],
      elem_faults = [], alloc_faults = []\<rparr>)"
  by code_simp

text \<open>
  C3 (\<^verbatim>\<open>Erase\<close> returns a cursor to the element that now occupies the position, or
  \<^verbatim>\<open>end()\<close> when the last element was removed).  For a vector with one element,
  \<^verbatim>\<open>Erase(begin())\<close> destroys the element and sets the size to 0; then \<^verbatim>\<open>begin()\<close> is
  null, and the result \<^verbatim>\<open>&data_[pos - begin()]\<close> subtracts a null pointer from a
  pointer into the block: the call has no defined result, where the claim promises
  \<^verbatim>\<open>end()\<close>.
\<close>

theorem Erase_only_element:
  "Erase T_trivial (Ptr 0 0) 0
     \<lparr>heap = [Some [Obj 7]],
      vecs = [\<lparr>m_data = \<lparr>m_buffer = Ptr 0 0, m_capacity = 1\<rparr>, m_size = 1\<rparr>],
      elem_faults = [], alloc_faults = []\<rparr>
   = Inl (Undefined,
     \<lparr>heap = [Some [Raw]],
      vecs = [\<lparr>m_data = \<lparr>m_buffer = Ptr 0 0, m_capacity = 1\<rparr>, m_size = 0\<rparr>],
      elem_faults = [], alloc_faults = []\<rparr>)"
  by code_simp

text \<open>
  C4, as stated (after move-assigning A into B, A is empty): false when B holds
  elements.  A holds 1, B holds 2; after \<^verbatim>\<open>B = std::move(A)\<close> the vector A (index 0)
  has B's former block and size 1.
\<close>

theorem move_assign_nonempty_target:
  "Vector_move_assign 1 0
     \<lparr>heap = [Some [Obj (1::int)], Some [Obj 2]],
      vecs = [\<lparr>m_data = \<lparr>m_buffer = Ptr 0 0, m_capacity = 1\<rparr>, m_size = 1\<rparr>,
              \<lparr>m_data = \<lparr>m_buffer = Ptr 1 0, m_capacity = 1\<rparr>, m_size = 1\<rparr>],
      elem_faults = [], alloc_faults = []\<rparr>
   = Inr ((),
     \<lparr>heap = [Some [Obj 1], Some [Obj 2]],
      vecs = [\<lparr>m_data = \<lparr>m_buffer = Ptr 1 0, m_capacity = 1\<rparr>, m_size = 1\<rparr>,
              \<lparr>m_data = \<lparr>m_buffer = Ptr 0 0, m_capacity = 1\<rparr>, m_size = 1\<rparr>],
      elem_faults = [], alloc_faults = []\<rparr>)"
  by code_simp

text \<open>
  C4, amended: for two distinct vectors A (index \<open>a\<close>) and B (index \<open>b\<close>), move-assigning
  A into B exchanges the two: B has A's former block and size, hence A's former
  elements, and A has B's former block, size and elements.  A is left empty exactly when
  B was empty before.  The heap is not touched.
\<close>

theorem move_assign_exchanges:
  assumes "a \<noteq> b" "a < length (vecs s)" "b < length (vecs s)"
  shows "\<exists>s'. Vector_move_assign b a s = Inr ((), s') \<and>
           slots s' b = slots s a \<and> slots s' a = slots s b \<and>
           vecs s' ! b = vecs s ! a \<and> vecs s' ! a = vecs s ! b \<and> heap s' = heap s \<and>
           (m_size (vecs s' ! a) = 0) = (m_size (vecs s ! b) = 0)"
proof -
  let ?s' = "s\<lparr>vecs := (vecs s)[b := vecs s ! a, a := vecs s ! b]\<rparr>"
  have "Vector_move_assign b a s = Inr ((), ?s')"
    using assms by (rule Vector_move_assign_exec)
  moreover have "vecs ?s' ! b = vecs s ! a" "vecs ?s' ! a = vecs s ! b" "heap ?s' = heap s"
    using assms by simp_all
  moreover from this have "slots ?s' b = slots s a" "slots ?s' a = slots s b"
    by (simp_all add: slots_def cong: ptr.case_cong option.case_cong)
  ultimately show ?thesis by metis
qed

theorem move_assign_exchanges_witness:
  "\<exists>s'. Vector_move_assign 1 0
     \<lparr>heap = [Some [Obj (1::int)], Some [Obj 2, Obj 3]],
      vecs = [\<lparr>m_data = \<lparr>m_buffer = Ptr 0 0, m_capacity = 1\<rparr>, m_size = 1\<rparr>,
              \<lparr>m_data = \<lparr>m_buffer = Ptr 1 0, m_capacity = 2\<rparr>, m_size = 2\<rparr>],
      elem_faults = [], alloc_faults = []\<rparr> = Inr ((), s') \<and>
    slots s' 1 = [Obj 1] \<and> slots s' 0 = [Obj 2, Obj 3]"
proof -
  let ?s = "\<lparr>heap = [Some [Obj (1::int)], Some [Obj 2, Obj 3]],
      vecs = [\<lparr>m_data = \<lparr>m_buffer = Ptr 0 0, m_capacity = 1\<rparr>, m_size = 1\<rparr>,
              \<lparr>m_data = \<lparr>m_buffer = Ptr 1 0, m_capacity = 2\<rparr>, m_size = 2\<rparr>],
      elem_faults = [], alloc_faults = []\<rparr>"
  have s: "slots ?s 0 = [Obj 1]" "slots ?s 1 = [Obj 2, Obj 3]"
    by (simp_all add: slots_def block_at_def)
  have "\<exists>s'. Vector_move_assign 1 0 ?s = Inr ((), s') \<and>
           slots s' 1 = slots ?s 0 \<and> slots s' 0 = slots ?s 1 \<and>
           vecs s' ! 1 = vecs ?s ! 0 \<and> vecs s' ! 0 = vecs ?s ! 1 \<and> heap s' = heap ?s \<and>
           (m_size (vecs s' ! 0) = 0) = (m_size (vecs ?s ! 1) = 0)"
    by (rule move_assign_exchanges) simp_all
  then show ?thesis
    unfolding s by blast
qed

text \<open>
  C5 (after a move construction or a move assignment of a \<^verbatim>\<open>RawMemory\<close>, the source has
  a null address and capacity 0).  Both operations copy the address and the capacity and
  assign nothing to the source: a source with a block of 3 slots still has its address
  and its capacity afterwards, and so do two objects that each release the block in
  their destructor.
\<close>

theorem RawMemory_move_keeps_source:
  "RawMemory_move_ctor \<lparr>m_buffer = Ptr 0 0, m_capacity = 3\<rparr>
     = (\<lparr>m_buffer = Ptr 0 0, m_capacity = 3\<rparr>, \<lparr>m_buffer = Ptr 0 0, m_capacity = 3\<rparr>) \<and>
   RawMemory_move_assign RawMemory_default \<lparr>m_buffer = Ptr 0 0, m_capacity = 3\<rparr>
     = (\<lparr>m_buffer = Ptr 0 0, m_capacity = 3\<rparr>, \<lparr>m_buffer = Ptr 0 0, m_capacity = 3\<rparr>)"
  by (simp add: RawMemory_move_ctor_def RawMemory_move_assign_def)

text \<open>
  C9: self-assignment is the identity.  Both assignment operators test
  \<^verbatim>\<open>this != &rhs\<close> first; for \<open>v = v\<close> nothing of the machine state changes, so the
  vector keeps its size, its elements and its capacity.
\<close>

theorem self_assignment_identity:
  "Vector_copy_assign T v v s = Inr ((), s) \<and> Vector_move_assign v v s = Inr ((), s)"
  by (simp add: Vector_copy_assign_def Vector_move_assign_def return_def)








text \<open>
  C7: copy assignment of a vector \<open>a\<close> to a distinct vector \<open>b\<close>, both in good order
  (\<open>a\<close> with the elements \<open>xs\<close>, \<open>b\<close> with \<open>ys\<close>), their blocks distinct, the element
  type copy constructible (and, when \<open>length xs\<close> exceeds the capacity of \<open>b\<close>, the request
  for \<open>length xs\<close> elements not wrapping around).
  \<^item> When the call returns, \<open>b\<close> holds \<open>xs\<close> with size \<open>length xs\<close>; \<open>a\<close> is the same object
    as before and still holds \<open>xs\<close>; the two vectors own distinct blocks, and overwriting
    the block of \<open>a\<close> with anything leaves the slots of \<open>b\<close> as they are.  One element
    operation per element of \<open>a\<close> was taken from the schedule.
  \<^item> When \<open>length xs\<close> fits in the capacity of \<open>b\<close>: the storage of \<open>b\<close> is the one it had,
    no block was allocated, and the block of \<open>b\<close> holds \<open>xs\<close>, then raw slots where the
    excess elements of \<open>ys\<close> were (they are destroyed), then what it held beyond both
    sizes.  When the call raises, the exception is that of a copy assignment exactly
    when the operation scheduled to raise is among the first \<open>min (length xs) (length ys)\<close>
    (the shared prefix is copy-assigned), and otherwise that of a copy construction (the
    extra elements of \<open>xs\<close> are copy-constructed).
  \<^item> When \<open>length xs\<close> exceeds the capacity of \<open>b\<close>: \<open>b\<close> owns a block allocated by the call,
    which holds exactly \<open>xs\<close>, and the former block of \<open>b\<close> is released.  When the call
    raises (\<^verbatim>\<open>std::bad_alloc\<close> or the exception of a copy construction), the vector
    objects are unchanged, \<open>b\<close> still holds \<open>ys\<close> and \<open>a\<close> still \<open>xs\<close>.
  \<^item> The call returns exactly when none of the first \<open>length xs\<close> element operations is
    scheduled to raise and, where a block is allocated, the allocation does not fail.
\<close>

theorem copy_assign_copies:
  assumes ne: "a \<noteq> b" and oka: "vector_ok s a xs" and okb: "vector_ok s b ys"
    and sep: "block_of (m_data (vecs s ! a)) \<inter> block_of (m_data (vecs s ! b)) = {}"
    and cc: "copy_constructible T"
    and nw: "length xs \<le> m_capacity (m_data (vecs s ! b)) \<or> no_wrap T (length xs)"
  shows "(case Vector_copy_assign T b a s of
       Inr (u, s') \<Rightarrow>
          slots s' b = map Obj xs \<and> m_size (vecs s' ! b) = length xs \<and>
          vecs s' ! a = vecs s ! a \<and> slots s' a = map Obj xs \<and>
          block_of (m_data (vecs s' ! a)) \<inter> block_of (m_data (vecs s' ! b)) = {} \<and>
          (\<forall>c \<in> block_of (m_data (vecs s' ! a)). \<forall>blk.
              slots (s'\<lparr>heap := (heap s')[c := blk]\<rparr>) b = slots s' b) \<and>
          elem_faults s' = drop (length xs) (elem_faults s) \<and>
          (if length xs \<le> m_capacity (m_data (vecs s ! b))
           then m_data (vecs s' ! b) = m_data (vecs s ! b) \<and>
                length (heap s') = length (heap s) \<and> alloc_faults s' = alloc_faults s \<and>
                (\<forall>bb i blk. m_buffer (m_data (vecs s ! b)) = Ptr bb i \<and>
                            block_at (heap s) bb = Some blk \<longrightarrow>
                   block_at (heap s') bb =
                     Some (map Obj xs @ replicate (length ys - length xs) Raw @
                           drop (max (length xs) (length ys)) blk))
           else m_data (vecs s' ! b) =
                  \<lparr>m_buffer = Ptr (length (heap s)) 0, m_capacity = length xs\<rparr> \<and>
                block_at (heap s') (length (heap s)) = Some (map Obj xs) \<and>
                (\<forall>c \<in> block_of (m_data (vecs s ! b)). block_at (heap s') c = None))
     | Inl (e, s') \<Rightarrow>
          (if length xs \<le> m_capacity (m_data (vecs s ! b))
           then (e = Thrown CopyAssign \<or> e = Thrown CopyCtor) \<and>
                (e = Thrown CopyAssign) =
                  (True \<in> set (take (min (length xs) (length ys)) (elem_faults s)))
           else (e = BadAlloc \<and> alloc_fails s \<or> e = Thrown CopyCtor) \<and>
                vecs s' = vecs s \<and> slots s' b = map Obj ys \<and> slots s' a = map Obj xs)) \<and>
     ((\<exists>s'. Vector_copy_assign T b a s = Inr ((), s')) \<longleftrightarrow>
        True \<notin> set (take (length xs) (elem_faults s)) \<and>
        (length xs \<le> m_capacity (m_data (vecs s ! b)) \<or> \<not> alloc_fails s))"
proof -
  let ?va = "vecs s ! a"
  let ?vb = "vecs s ! b"
  let ?R = "Vector_copy_assign T b a s"
  from vector_okD [OF oka] have ath: "a < length (vecs s)" by auto
  from vector_okD [OF okb] have bth: "b < length (vecs s)" by auto
  have alt: "\<forall>c \<in> block_of (m_data ?va). c < length (heap s) \<and> c \<notin> block_of (m_data ?vb)"
    using block_of_less [OF oka] sep by auto
  show ?thesis
  proof (cases "length xs \<le> m_capacity (m_data ?vb)")
    case True
    note sp = copy_assign_fits_spec [OF ne oka okb sep cc True]
    show ?thesis
    proof (cases ?R)
      case (Inl w)
      obtain e s' where w: "w = (e, s')" by (cases w)
      from sp Inl w have e: "e = Thrown CopyAssign \<or> e = Thrown CopyCtor"
        "(e = Thrown CopyAssign) = (True \<in> set (take (min (length xs) (length ys)) (elem_faults s)))"
        "True \<in> set (take (length xs) (elem_faults s))"
        by auto
      show ?thesis using Inl w True e by simp
    next
      case (Inr w)
      obtain u s' where w: "w = (u, s')" by (cases w)
      from sp Inr w have s': "vector_ok s' b xs"
        "vecs s' = (vecs s)[b := ?vb\<lparr>m_size := length xs\<rparr>]"
        "length (heap s') = length (heap s)"
        "\<forall>c. c \<notin> block_of (m_data ?vb) \<longrightarrow> block_at (heap s') c = block_at (heap s) c"
        "elem_faults s' = drop (length xs) (elem_faults s)" "alloc_faults s' = alloc_faults s"
        "True \<notin> set (take (length xs) (elem_faults s))"
        "\<forall>bb i blk. m_buffer (m_data ?vb) = Ptr bb i \<and> block_at (heap s) bb = Some blk \<longrightarrow>
            block_at (heap s') bb =
              Some (map Obj xs @ replicate (length ys - length xs) Raw @
                    drop (max (length xs) (length ys)) blk)"
        by simp_all
      have va: "vecs s' ! a = ?va" using s'(2) ne by simp
      have vb: "m_data (vecs s' ! b) = m_data ?vb" using s'(2) bth by simp
      have oka': "vector_ok s' a xs"
      proof (rule vector_ok_frame [OF oka va])
        show "a < length (vecs s')" using s'(2) ath by simp
        show "\<forall>c\<in>block_of (m_data ?va). block_at (heap s') c = block_at (heap s) c"
          using s'(4) alt by blast
      qed
      have ind: "block_of (m_data (vecs s' ! a)) \<inter> block_of (m_data (vecs s' ! b)) = {}"
        using va vb sep by simp
      have mut: "\<forall>c \<in> block_of (m_data (vecs s' ! a)). \<forall>blk.
              slots (s'\<lparr>heap := (heap s')[c := blk]\<rparr>) b = slots s' b"
        using ind by (auto intro!: slots_other_block)
      have u: "u = ()" by simp
      have 1: "slots s' b = map Obj xs \<and> m_size (vecs s' ! b) = length xs \<and>
          vecs s' ! a = vecs s ! a \<and> slots s' a = map Obj xs"
        using slots_vector_ok [OF s'(1)] vector_okD(2) [OF s'(1)] slots_vector_ok [OF oka'] va
        by simp
      show ?thesis
        using Inr w True 1 ind mut s'(3,5,6,7,8) vb u
        by (simp del: One_nat_def)
    qed
  next
    case False
    then have big: "m_capacity (m_data ?vb) < length xs" by simp
    from False nw have nw': "no_wrap T (length xs)" by simp
    note sp = copy_assign_big_spec [OF ne oka okb cc big nw']
    let ?L = "length (heap s)"
    show ?thesis
    proof (cases ?R)
      case (Inl w)
      obtain e s' where w: "w = (e, s')" by (cases w)
      from sp Inl w have s': "vecs s' = vecs s"
        "e = BadAlloc \<and> alloc_fails s \<or>
         e = Thrown CopyCtor \<and> True \<in> set (take (length xs) (elem_faults s))"
        "\<forall>c < ?L. block_at (heap s') c = block_at (heap s) c"
        by simp_all
      have oka': "vector_ok s' a xs"
      proof (rule vector_ok_frame [OF oka])
        show "\<forall>c\<in>block_of (m_data ?va). block_at (heap s') c = block_at (heap s) c"
          using s'(3) alt by blast
      qed (simp_all add: s'(1) ath)
      have okb': "vector_ok s' b ys"
      proof (rule vector_ok_frame [OF okb])
        show "\<forall>c\<in>block_of (m_data ?vb). block_at (heap s') c = block_at (heap s) c"
          using s'(3) block_of_less [OF okb] by blast
      qed (simp_all add: s'(1) bth)
      show ?thesis
        using Inl w False s'(1,2) slots_vector_ok [OF oka'] slots_vector_ok [OF okb'] by auto
    next
      case (Inr w)
      obtain u s' where w: "w = (u, s')" by (cases w)
      let ?nv = "\<lparr>m_data = \<lparr>m_buffer = Ptr ?L 0, m_capacity = length xs\<rparr>, m_size = length xs\<rparr>"
      from sp Inr w have s': "vecs s' = (vecs s)[b := ?nv]"
        "block_at (heap s') ?L = Some (map Obj xs)"
        "\<forall>c < ?L. c \<notin> block_of (m_data ?vb) \<longrightarrow> block_at (heap s') c = block_at (heap s) c"
        "\<forall>c \<in> block_of (m_data ?vb). block_at (heap s') c = None"
        "elem_faults s' = drop (length xs) (elem_faults s)"
        "True \<notin> set (take (length xs) (elem_faults s))" "\<not> alloc_fails s"
        by simp_all
      have va: "vecs s' ! a = ?va" using s'(1) ne by simp
      have vb: "vecs s' ! b = ?nv" using s'(1) bth by simp
      have okb': "vector_ok s' b xs"
        using vb s'(1,2) bth by (simp add: vector_ok_def)
      have oka': "vector_ok s' a xs"
      proof (rule vector_ok_frame [OF oka va])
        show "a < length (vecs s')" using s'(1) ath by simp
        show "\<forall>c\<in>block_of (m_data ?va). block_at (heap s') c = block_at (heap s) c"
          using s'(3) alt by blast
      qed
      have ind: "block_of (m_data (vecs s' ! a)) \<inter> block_of (m_data (vecs s' ! b)) = {}"
        using va vb alt by (auto simp: block_of_def)
      have mut: "\<forall>c \<in> block_of (m_data (vecs s' ! a)). \<forall>blk.
              slots (s'\<lparr>heap := (heap s')[c := blk]\<rparr>) b = slots s' b"
        using ind by (auto intro!: slots_other_block)
      have u: "u = ()" by simp
      have 1: "slots s' b = map Obj xs \<and> m_size (vecs s' ! b) = length xs \<and>
          vecs s' ! a = vecs s ! a \<and> slots s' a = map Obj xs"
        using slots_vector_ok [OF okb'] vector_okD(2) [OF okb'] slots_vector_ok [OF oka'] va
        by simp
      have md: "m_data (vecs s' ! b) = \<lparr>m_buffer = Ptr ?L 0, m_capacity = length xs\<rparr>"
        using vb by simp
      show ?thesis
        using Inr w False 1 ind mut s'(2,4,5,6,7) md u
        by (simp del: One_nat_def)
    qed
  qed
qed

theorem copy_assign_copies_witness:
  "\<exists>s'. Vector_copy_assign T_copying 1 0
      \<lparr>heap = [Some [Obj 1], Some [Obj 7, Obj 8, Obj 9]],
       vecs = [\<lparr>m_data = \<lparr>m_buffer = Ptr 0 0, m_capacity = 1\<rparr>, m_size = 1\<rparr>,
               \<lparr>m_data = \<lparr>m_buffer = Ptr 1 0, m_capacity = 3\<rparr>, m_size = 3\<rparr>],
       elem_faults = [], alloc_faults = []\<rparr> = Inr ((), s') \<and>
     slots s' 1 = [Obj 1] \<and> slots s' 0 = [Obj 1] \<and>
     block_at (heap s') 1 = Some [Obj 1, Raw, Raw]"
proof -
  let ?s = "\<lparr>heap = [Some [Obj 1], Some [Obj 7, Obj 8, Obj 9]],
       vecs = [\<lparr>m_data = \<lparr>m_buffer = Ptr 0 0, m_capacity = 1\<rparr>, m_size = 1\<rparr>,
               \<lparr>m_data = \<lparr>m_buffer = Ptr 1 0, m_capacity = 3\<rparr>, m_size = 3\<rparr>],
       elem_faults = [], alloc_faults = []\<rparr> :: int machine"
  have h: "(0::nat) \<noteq> 1" "vector_ok ?s 0 [1]" "vector_ok ?s 1 [7, 8, 9]"
    "block_of (m_data (vecs ?s ! 0)) \<inter> block_of (m_data (vecs ?s ! 1)) = {}"
    "copy_constructible T_copying"
    "length [1::int] \<le> m_capacity (m_data (vecs ?s ! 1)) \<or> no_wrap T_copying (length [1::int])"
    by (simp_all add: vector_ok_def block_at_def block_of_def T_copying_def)
  have fits: "length [1::int] \<le> m_capacity (m_data (vecs ?s ! 1))" by simp
  have nf: "True \<notin> set (take (length [1::int]) (elem_faults ?s))" by simp
  have bb: "m_buffer (m_data (vecs ?s ! 1)) = Ptr 1 0 \<and>
            block_at (heap ?s) 1 = Some [Obj 7, Obj 8, Obj 9]"
    by (simp add: block_at_def)
  note t = copy_assign_copies [OF h]
  from t nf fits obtain s' where r: "Vector_copy_assign T_copying 1 0 ?s = Inr ((), s')"
    by blast
  from t have "case Vector_copy_assign T_copying 1 0 ?s of
       Inr (u, s') \<Rightarrow>
          slots s' 1 = map Obj [1] \<and> m_size (vecs s' ! 1) = length [1::int] \<and>
          vecs s' ! 0 = vecs ?s ! 0 \<and> slots s' 0 = map Obj [1] \<and>
          block_of (m_data (vecs s' ! 0)) \<inter> block_of (m_data (vecs s' ! 1)) = {} \<and>
          (\<forall>c \<in> block_of (m_data (vecs s' ! 0)). \<forall>blk.
              slots (s'\<lparr>heap := (heap s')[c := blk]\<rparr>) 1 = slots s' 1) \<and>
          elem_faults s' = drop (length [1::int]) (elem_faults ?s) \<and>
          (if length [1::int] \<le> m_capacity (m_data (vecs ?s ! 1))
           then m_data (vecs s' ! 1) = m_data (vecs ?s ! 1) \<and>
                length (heap s') = length (heap ?s) \<and> alloc_faults s' = alloc_faults ?s \<and>
                (\<forall>bb i blk. m_buffer (m_data (vecs ?s ! 1)) = Ptr bb i \<and>
                            block_at (heap ?s) bb = Some blk \<longrightarrow>
                   block_at (heap s') bb =
                     Some (map Obj [1] @ replicate (length [7::int, 8, 9] - length [1::int]) Raw @
                           drop (max (length [1::int]) (length [7::int, 8, 9])) blk))
           else m_data (vecs s' ! 1) =
                  \<lparr>m_buffer = Ptr (length (heap ?s)) 0, m_capacity = length [1::int]\<rparr> \<and>
                block_at (heap s') (length (heap ?s)) = Some (map Obj [1]) \<and>
                (\<forall>c \<in> block_of (m_data (vecs ?s ! 1)). block_at (heap s') c = None))
     | Inl (e, s') \<Rightarrow>
          (if length [1::int] \<le> m_capacity (m_data (vecs ?s ! 1))
           then (e = Thrown CopyAssign \<or> e = Thrown CopyCtor) \<and>
                (e = Thrown CopyAssign) =
                  (True \<in> set (take (min (length [1::int]) (length [7::int, 8, 9])) (elem_faults ?s)))
           else (e = BadAlloc \<and> alloc_fails ?s \<or> e = Thrown CopyCtor) \<and>
                vecs s' = vecs ?s \<and> slots s' 1 = map Obj [7, 8, 9] \<and> slots s' 0 = map Obj [1])"
    by (rule conjunct1)
  then have c: "slots s' 1 = map Obj [1] \<and> slots s' 0 = map Obj [1] \<and>
     (if length [1::int] \<le> m_capacity (m_data (vecs ?s ! 1))
           then m_data (vecs s' ! 1) = m_data (vecs ?s ! 1) \<and>
                length (heap s') = length (heap ?s) \<and> alloc_faults s' = alloc_faults ?s \<and>
                (\<forall>bb i blk. m_buffer (m_data (vecs ?s ! 1)) = Ptr bb i \<and>
                            block_at (heap ?s) bb = Some blk \<longrightarrow>
                   block_at (heap s') bb =
                     Some (map Obj [1] @ replicate (length [7::int, 8, 9] - length [1::int]) Raw @
                           drop (max (length [1::int]) (length [7::int, 8, 9])) blk))
           else m_data (vecs s' ! 1) =
                  \<lparr>m_buffer = Ptr (length (heap ?s)) 0, m_capacity = length [1::int]\<rparr> \<and>
                block_at (heap s') (length (heap ?s)) = Some (map Obj [1]) \<and>
                (\<forall>c \<in> block_of (m_data (vecs ?s ! 1)). block_at (heap s') c = None))"
    unfolding r by (simp only: sum.case prod.case) blast
  with fits have "\<forall>bb i blk. m_buffer (m_data (vecs ?s ! 1)) = Ptr bb i \<and>
                            block_at (heap ?s) bb = Some blk \<longrightarrow>
                   block_at (heap s') bb =
                     Some (map Obj [1] @ replicate (length [7::int, 8, 9] - length [1::int]) Raw @
                           drop (max (length [1::int]) (length [7::int, 8, 9])) blk)"
    by (simp only: if_True) blast
  with bb have "block_at (heap s') 1 =
                     Some (map Obj [1] @ replicate (length [7::int, 8, 9] - length [1::int]) Raw @
                           drop (max (length [1::int]) (length [7::int, 8, 9])) [Obj 7, Obj 8, Obj 9])"
    by blast
  then have "block_at (heap s') 1 = Some [Obj 1, Raw, Raw]"
    by (simp add: numeral_2_eq_2)
  with c r have "Vector_copy_assign T_copying 1 0 ?s = Inr ((), s') \<and>
     slots s' 1 = [Obj 1] \<and> slots s' 0 = [Obj 1] \<and>
     block_at (heap s') 1 = Some [Obj 1, Raw, Raw]"
    by simp
  then show ?thesis by (rule exI)
qed

end
